theory Spec2Isabelle
  imports Main "HOL-Library.Word" "HOL-Library.AList"
begin

unbundle bit_operations_syntax

section \<open>Local file cache (pgxn/neon/file_cache.c)\<close>

subsection \<open>Constants and data\<close>

type_synonym uint32 = "32 word"
type_synonym uint64 = "64 word"

text \<open>
  \<open>BLOCKS_PER_CHUNK\<close> and \<open>MB\<close> are the macros of file\_cache.c. \<open>BLCKSZ\<close> is
  PostgreSQL's page size, which file\_cache.c takes from the server headers; the value
  is the 8 KiB page of the specification's glossary.
\<close>

definition BLOCKS_PER_CHUNK :: nat where
  "BLOCKS_PER_CHUNK = 128"

definition BLCKSZ :: nat where
  "BLCKSZ = 8192"

definition MB :: uint64 where
  "MB = 1024 * 1024"

text \<open>\<open>CHUNK_SIZE = BLOCKS_PER_CHUNK * BLCKSZ\<close>, a product of two \<open>int\<close> constants.\<close>

definition CHUNK_SIZE :: nat where
  "CHUNK_SIZE = BLOCKS_PER_CHUNK * BLCKSZ"

text \<open>
  \<open>SIZE_MB_TO_CHUNKS(size) = (uint32)((size) * MB / BLCKSZ / BLOCKS_PER_CHUNK)\<close>: the
  \<open>int\<close> argument is converted to \<open>uint64\<close> by the multiplication with \<open>MB\<close>, the
  quotient is cut to 32 bits.
\<close>

definition SIZE_MB_TO_CHUNKS :: "int \<Rightarrow> uint32" where
  "SIZE_MB_TO_CHUNKS size_mb =
     ucast (((word_of_int size_mb :: uint64) * MB) div word_of_nat BLCKSZ div word_of_nat BLOCKS_PER_CHUNK)"

record RelFileNode =
  spcNode :: uint32
  dbNode :: uint32
  relNode :: uint32

record BufferTag =
  rnode :: RelFileNode
  forkNum :: int
  blockNum :: uint32

text \<open>
  \<open>FileCacheEntry\<close>. The \<open>key\<close> field is the key under which the entry sits in the
  hash table, and the intrusive \<open>lru_node\<close> is the entry's membership in the list
  \<open>ctl_lru\<close> below, so the record keeps the other three fields. The bitmap is the
  array \<open>uint32 bitmap[BLOCKS_PER_CHUNK/32]\<close>.
\<close>

record FileCacheEntry =
  offset :: uint32
  access_count :: uint32
  bitmap :: "uint32 list"

type_synonym page = "8 word list"

text \<open>
  The state of the cache: the settings \<open>lfc_max_size\<close> (fixed at start) and
  \<open>lfc_size_limit\<close>, the shared hash table \<open>lfc_hash\<close> as the list of its entries
  under their keys (\<open>map_of\<close> is \<open>HASH_FIND\<close>, \<open>AList.update\<close> stores an entry,
  \<open>AList.delete\<close> is \<open>HASH_REMOVE\<close>; the table is taken to have room for
  \<open>HASH_ENTER\<close>), the fields of \<open>FileCacheControl\<close> (\<open>size\<close>, \<open>used\<close>, \<open>lru\<close>;
  the list is read from its head), and the slab at \<open>lfc_base_addr\<close>, addressed by page
  slot: slot \<open>offset * BLOCKS_PER_CHUNK + chunk_offs\<close> is the \<open>BLCKSZ\<close> bytes at byte
  address \<open>(offset * BLOCKS_PER_CHUNK + chunk_offs) * BLCKSZ\<close>. \<open>punched\<close> logs the calls
  of \<open>madvise(..., MADV_REMOVE)\<close> during a shrink: the start of the range, as a byte
  offset from \<open>lfc_base_addr\<close>, and its length.
\<close>

record lfc_state =
  lfc_max_size :: int
  lfc_size_limit :: int
  lfc_hash :: "(BufferTag \<times> FileCacheEntry) list"
  ctl_size :: uint32
  ctl_used :: uint32
  ctl_lru :: "BufferTag list"
  slab :: "nat \<Rightarrow> page"
  punched :: "(nat \<times> nat) list"

text \<open>
  \<open>lfc_shmem_startup\<close>: \<open>size = 0\<close>, \<open>used = 0\<close>, \<open>dlist_init\<close>, an empty hash table and
  the whole slab released to the system (it reads as zero bytes).
\<close>

definition lfc_shmem_startup :: "int \<Rightarrow> int \<Rightarrow> lfc_state" where
  "lfc_shmem_startup max_size limit =
     \<lparr>lfc_max_size = max_size, lfc_size_limit = limit, lfc_hash = [], ctl_size = 0, ctl_used = 0,
      ctl_lru = [], slab = (\<lambda>_. replicate BLCKSZ 0), punched = []\<rparr>"

subsection \<open>The LRU list\<close>

text \<open>
  PostgreSQL's \<open>dlist\<close> operations on the list of keys. \<open>dlist_delete(node)\<close> is
  \<open>node->prev->next = node->next; node->next->prev = node->prev;\<close>: it unlinks a node
  that is in the list. On a node that is not in the list it writes through whatever
  \<open>prev\<close> and \<open>next\<close> hold, null pointers in an entry fresh from \<open>HASH_ENTER\<close> and the
  former neighbours in an entry that was unlinked before; the C program has no defined
  behaviour then, and the result is \<open>None\<close>. Every operation that calls
  \<open>dlist_delete\<close> has \<open>None\<close> as its result in that case.
\<close>

definition dlist_delete :: "BufferTag \<Rightarrow> BufferTag list \<Rightarrow> BufferTag list option" where
  "dlist_delete k xs = (if k \<in> set xs then Some (remove1 k xs) else None)"

definition dlist_push_tail :: "BufferTag \<Rightarrow> BufferTag list \<Rightarrow> BufferTag list" where
  "dlist_push_tail k xs = xs @ [k]"

definition dlist_push_head :: "BufferTag \<Rightarrow> BufferTag list \<Rightarrow> BufferTag list" where
  "dlist_push_head k xs = k # xs"

subsection \<open>Addressing a page\<close>

text \<open>\<open>chunk_offs = blkno & (BLOCKS_PER_CHUNK-1)\<close> and the tag of the chunk.\<close>

definition chunk_offs_of :: "uint32 \<Rightarrow> nat" where
  "chunk_offs_of blkno = unat (blkno AND (word_of_nat BLOCKS_PER_CHUNK - 1))"

definition chunk_tag :: "RelFileNode \<Rightarrow> int \<Rightarrow> uint32 \<Rightarrow> BufferTag" where
  "chunk_tag rn fk blkno =
     \<lparr>rnode = rn, forkNum = fk, blockNum = blkno AND NOT (word_of_nat BLOCKS_PER_CHUNK - 1)\<rparr>"

text \<open>\<open>1 << (chunk_offs & 31)\<close> and the test, setting and clearing of a bit.\<close>

definition page_bit :: "nat \<Rightarrow> uint32" where
  "page_bit co = push_bit (co AND 31) 1"

definition bitmap_test :: "uint32 list \<Rightarrow> nat \<Rightarrow> bool" where
  "bitmap_test bm co \<longleftrightarrow> (bm ! (drop_bit 5 co)) AND page_bit co \<noteq> 0"

definition bitmap_set :: "uint32 list \<Rightarrow> nat \<Rightarrow> uint32 list" where
  "bitmap_set bm co = bm[drop_bit 5 co := (bm ! (drop_bit 5 co)) OR page_bit co]"

definition bitmap_clear :: "uint32 list \<Rightarrow> nat \<Rightarrow> uint32 list" where
  "bitmap_clear bm co = bm[drop_bit 5 co := (bm ! (drop_bit 5 co)) AND NOT (page_bit co)]"

definition page_slot :: "FileCacheEntry \<Rightarrow> nat \<Rightarrow> nat" where
  "page_slot e co = unat (offset e) * BLOCKS_PER_CHUNK + co"

subsection \<open>Pinning\<close>

text \<open>
  \<open>if (entry->access_count++ == 0) dlist_delete(&entry->lru_node);\<close> on the entry \<open>e\<close>
  found under \<open>tag\<close>.
\<close>

definition lfc_pin :: "BufferTag \<Rightarrow> FileCacheEntry \<Rightarrow> lfc_state \<Rightarrow> lfc_state option" where
  "lfc_pin tag e s =
     (let s1 = s\<lparr>lfc_hash := AList.update tag (e\<lparr>access_count := access_count e + 1\<rparr>) (lfc_hash s)\<rparr>
      in if access_count e = 0
         then (case dlist_delete tag (ctl_lru s1) of
                 None \<Rightarrow> None
               | Some l \<Rightarrow> Some (s1\<lparr>ctl_lru := l\<rparr>))
         else Some s1)"

text \<open>
  \<open>if (--entry->access_count == 0) dlist_push_tail(&lfc_ctl->lru, &entry->lru_node);\<close>
  through the entry pointer kept from the first critical section. The pointer is the key
  here; the branch \<open>None\<close> is a pointer to a removed entry, which does not arise while the
  entry is pinned.
\<close>

definition lfc_unpin :: "BufferTag \<Rightarrow> lfc_state \<Rightarrow> lfc_state" where
  "lfc_unpin tag s =
     (case map_of (lfc_hash s) tag of
        None \<Rightarrow> s
      | Some e \<Rightarrow>
          (let e1 = e\<lparr>access_count := access_count e - 1\<rparr>;
               s1 = s\<lparr>lfc_hash := AList.update tag e1 (lfc_hash s)\<rparr>
           in if access_count e1 = 0 then s1\<lparr>ctl_lru := dlist_push_tail tag (ctl_lru s1)\<rparr> else s1))"

subsection \<open>\<open>lfc_cache_contains\<close>\<close>

definition lfc_cache_contains :: "RelFileNode \<Rightarrow> int \<Rightarrow> uint32 \<Rightarrow> lfc_state \<Rightarrow> bool" where
  "lfc_cache_contains rn fk blkno s =
     (if lfc_size_limit s = 0 then False
      else (case map_of (lfc_hash s) (chunk_tag rn fk blkno) of
              None \<Rightarrow> False
            | Some e \<Rightarrow> bitmap_test (bitmap e) (chunk_offs_of blkno)))"

subsection \<open>\<open>lfc_read\<close>\<close>

text \<open>
  The result is the returned flag, the caller's buffer after the call and the state. The
  three steps are the first critical section (lookup and pin), the \<open>memcpy\<close> of one page
  out of the slab, and the second critical section (unpin).
\<close>

definition lfc_read ::
    "RelFileNode \<Rightarrow> int \<Rightarrow> uint32 \<Rightarrow> page \<Rightarrow> lfc_state \<Rightarrow> (bool \<times> page \<times> lfc_state) option" where
  "lfc_read rn fk blkno buffer s =
     (if lfc_size_limit s = 0 then Some (False, buffer, s)
      else
        (let tag = chunk_tag rn fk blkno; co = chunk_offs_of blkno in
         case map_of (lfc_hash s) tag of
           None \<Rightarrow> Some (False, buffer, s)
         | Some e \<Rightarrow>
             if \<not> bitmap_test (bitmap e) co then Some (False, buffer, s)
             else
               (case lfc_pin tag e s of
                  None \<Rightarrow> None
                | Some s1 \<Rightarrow> Some (True, slab s1 (page_slot e co), lfc_unpin tag s1))))"

subsection \<open>\<open>lfc_write\<close>\<close>

text \<open>
  The fields of an entry that \<open>HASH_ENTER\<close> has just created, once the admission has
  given it a chunk: \<open>entry->offset\<close>, \<open>entry->access_count = 1\<close> and the bitmap
  cleared by \<open>memset\<close>.
\<close>

definition new_entry :: "uint32 \<Rightarrow> FileCacheEntry" where
  "new_entry off =
     \<lparr>offset = off, access_count = 1, bitmap = replicate (BLOCKS_PER_CHUNK div 32) 0\<rparr>"

text \<open>
  The first critical section of \<open>lfc_write\<close>: \<open>hash_search(..., HASH_ENTER, &found)\<close>, then
  the pin of an entry that was there, or the admission of a new one. The victim is the
  entry of the node at the head of the list; a node with no entry behind it (excluded by
  \<open>lfc_inv\<close>) leaves the state as it is.
\<close>

definition lfc_write_enter :: "BufferTag \<Rightarrow> lfc_state \<Rightarrow> lfc_state option" where
  "lfc_write_enter tag s =
     (case map_of (lfc_hash s) tag of
        Some e \<Rightarrow> lfc_pin tag e s
      | None \<Rightarrow>
          (if SIZE_MB_TO_CHUNKS (lfc_size_limit s) \<le> ctl_used s \<and> ctl_lru s \<noteq> [] then
             (case ctl_lru s of
                [] \<Rightarrow> Some s
              | victim # rest \<Rightarrow>
                  (case map_of (lfc_hash s) victim of
                     None \<Rightarrow> Some s
                   | Some v \<Rightarrow>
                       Some (s\<lparr>ctl_lru := rest,
                               lfc_hash := AList.delete victim
                                  (AList.update tag (new_entry (offset v)) (lfc_hash s))\<rparr>)))
           else
             Some (s\<lparr>ctl_used := ctl_used s + 1,
                     ctl_size := ctl_size s + 1,
                     lfc_hash := AList.update tag (new_entry (ctl_size s)) (lfc_hash s)\<rparr>)))"

text \<open>The \<open>memcpy\<close> of one page from the caller's buffer into the slab.\<close>

definition lfc_write_copy :: "BufferTag \<Rightarrow> nat \<Rightarrow> page \<Rightarrow> lfc_state \<Rightarrow> lfc_state" where
  "lfc_write_copy tag co buffer s =
     (case map_of (lfc_hash s) tag of
        None \<Rightarrow> s
      | Some e \<Rightarrow> s\<lparr>slab := (slab s)(page_slot e co := take BLCKSZ buffer)\<rparr>)"

text \<open>
  The second critical section: unpin, then
  \<open>if (lfc_size_limit != 0) entry->bitmap[chunk_offs >> 5] |= (1 << (chunk_offs & 31))\<close>.
\<close>

definition lfc_write_finish :: "BufferTag \<Rightarrow> nat \<Rightarrow> lfc_state \<Rightarrow> lfc_state" where
  "lfc_write_finish tag co s =
     (let s1 = lfc_unpin tag s in
      if lfc_size_limit s1 \<noteq> 0 then
        (case map_of (lfc_hash s1) tag of
           None \<Rightarrow> s1
         | Some e \<Rightarrow> s1\<lparr>lfc_hash := AList.update tag (e\<lparr>bitmap := bitmap_set (bitmap e) co\<rparr>) (lfc_hash s1)\<rparr>)
      else s1)"

definition lfc_write :: "RelFileNode \<Rightarrow> int \<Rightarrow> uint32 \<Rightarrow> page \<Rightarrow> lfc_state \<Rightarrow> lfc_state option" where
  "lfc_write rn fk blkno buffer s =
     (if lfc_size_limit s = 0 then Some s
      else
        (let tag = chunk_tag rn fk blkno; co = chunk_offs_of blkno
         in case lfc_write_enter tag s of
              None \<Rightarrow> None
            | Some s1 \<Rightarrow> Some (lfc_write_finish tag co (lfc_write_copy tag co buffer s1))))"

subsection \<open>\<open>lfc_evict\<close>\<close>

text \<open>
  \<open>lfc_evict\<close> clears the page's bit. When the word of that bit is zero afterwards, the
  loop over the \<open>BLOCKS_PER_CHUNK / 32\<close> words sets \<open>has_remaining_pages\<close> to true at the
  first word that is not zero. The variable is declared without an initialiser, so when
  the loop finds no such word the test \<open>!has_remaining_pages\<close> reads what the stack slot
  held before; the argument \<open>stack_value\<close> is that content.
\<close>

definition has_remaining_pages_of :: "uint32 list \<Rightarrow> bool \<Rightarrow> bool" where
  "has_remaining_pages_of bm stack_value =
     (if list_ex (\<lambda>w. w \<noteq> 0) (take (BLOCKS_PER_CHUNK div 32) bm) then True else stack_value)"

definition lfc_evict :: "RelFileNode \<Rightarrow> int \<Rightarrow> uint32 \<Rightarrow> bool \<Rightarrow> lfc_state \<Rightarrow> lfc_state option" where
  "lfc_evict rn fk blkno stack_value s =
     (if lfc_size_limit s = 0 then Some s
      else
        (let tag = chunk_tag rn fk blkno; co = chunk_offs_of blkno in
         case map_of (lfc_hash s) tag of
           None \<Rightarrow> Some s
         | Some e \<Rightarrow>
             (let bm = bitmap_clear (bitmap e) co;
                  s1 = s\<lparr>lfc_hash := AList.update tag (e\<lparr>bitmap := bm\<rparr>) (lfc_hash s)\<rparr>
              in if bm ! (drop_bit 5 co) = 0 then
                   (if \<not> has_remaining_pages_of bm stack_value
                    then (case dlist_delete tag (ctl_lru s1) of
                            None \<Rightarrow> None
                          | Some l \<Rightarrow> Some (s1\<lparr>ctl_lru := dlist_push_head tag l\<rparr>))
                    else Some s1)
                 else Some s1)))"

subsection \<open>\<open>lfc_change_limit_hook\<close>\<close>

text \<open>
  The process in which the hook runs: whether \<open>lfc_ctl\<close> is set, whether the shared
  memory segment is attached (\<open>UsedShmemSegAddr\<close>), and \<open>IsParallelWorker()\<close>.
\<close>

record process =
  lfc_ctl_set :: bool
  UsedShmemSegAddr :: bool
  IsParallelWorker :: bool

text \<open>
  \<open>madvise(lfc_base_addr + victim->offset*CHUNK_SIZE, CHUNK_SIZE, MADV_REMOVE)\<close>. The
  product \<open>victim->offset*CHUNK_SIZE\<close> has a \<open>uint32\<close> and an \<open>int\<close> operand, so C takes it
  in \<open>unsigned int\<close>, modulo \<open>2^32\<close>, before it is added to the pointer (where
  \<open>lfc_read\<close> and \<open>lfc_write\<close> widen the offset to \<open>size_t\<close> first). \<open>punch_address\<close> is
  that product, the start of the range as a byte offset from \<open>lfc_base_addr\<close>.
\<close>

definition punch_address :: "uint32 \<Rightarrow> nat" where
  "punch_address off = unat (off * word_of_nat CHUNK_SIZE)"

text \<open>
  \<open>MADV_REMOVE\<close> frees the pages of the range and their backing store: the pages within
  the range read as zero bytes afterwards.
\<close>

definition madvise_remove :: "nat \<Rightarrow> nat \<Rightarrow> (nat \<Rightarrow> page) \<Rightarrow> nat \<Rightarrow> page" where
  "madvise_remove addr len sl =
     (\<lambda>slot. if addr \<le> slot * BLCKSZ \<and> (slot + 1) * BLCKSZ \<le> addr + len
             then replicate BLCKSZ 0 else sl slot)"

text \<open>
  The \<open>while\<close> loop of the hook. Each round pops the head of the list, calls \<open>madvise\<close>
  (taken to succeed; a failure is logged at \<open>LOG\<close> and the loop goes on), removes the
  victim from the hash table and decrements \<open>used\<close>. A node with no entry behind it
  (excluded by \<open>lfc_inv\<close>) ends the loop.
\<close>

function lfc_shrink :: "uint32 \<Rightarrow> lfc_state \<Rightarrow> lfc_state" where
  "lfc_shrink new_size s =
     (if new_size < ctl_used s \<and> ctl_lru s \<noteq> [] then
        (case ctl_lru s of
           [] \<Rightarrow> s
         | victim # rest \<Rightarrow>
             (case map_of (lfc_hash s) victim of
                None \<Rightarrow> s
              | Some v \<Rightarrow>
                  lfc_shrink new_size
                    (s\<lparr>ctl_lru := rest,
                       punched := punched s @ [(punch_address (offset v), CHUNK_SIZE)],
                       slab := madvise_remove (punch_address (offset v)) CHUNK_SIZE (slab s),
                       lfc_hash := AList.delete victim (lfc_hash s),
                       ctl_used := ctl_used s - 1\<rparr>)))
      else s)"
  by pat_completeness auto
termination
  by (relation "measure (\<lambda>(new_size, s). length (ctl_lru s))") auto

declare lfc_shrink.simps [simp del]

definition lfc_change_limit_hook :: "process \<Rightarrow> int \<Rightarrow> lfc_state \<Rightarrow> lfc_state" where
  "lfc_change_limit_hook p newval s =
     (let new_size = SIZE_MB_TO_CHUNKS newval in
      if \<not> lfc_ctl_set p \<or> \<not> UsedShmemSegAddr p \<or> IsParallelWorker p then s
      else lfc_shrink new_size s)"

text \<open>
  \<open>lfc_check_limit_hook\<close> refuses a value above \<open>lfc_max_size\<close>.
\<close>

definition lfc_check_limit_hook :: "int \<Rightarrow> lfc_state \<Rightarrow> bool" where
  "lfc_check_limit_hook newval s \<longleftrightarrow> \<not> (newval > lfc_max_size s)"

text \<open>
  Setting \<open>neon.file_cache_size_limit\<close>, as \<open>DefineCustomIntVariable\<close> registers it in
  \<open>lfc_init\<close>: a value outside \<open>0 .. INT_MAX\<close> or refused by the check hook leaves
  everything as it is; otherwise the assign hook runs and \<open>lfc_size_limit\<close> takes the
  value.
\<close>

definition set_size_limit :: "process \<Rightarrow> int \<Rightarrow> lfc_state \<Rightarrow> lfc_state" where
  "set_size_limit p newval s =
     (if newval < 0 \<or> 2147483647 < newval \<or> \<not> lfc_check_limit_hook newval s then s
      else (lfc_change_limit_hook p newval s)\<lparr>lfc_size_limit := newval\<rparr>)"

subsection \<open>Sequences of operations\<close>

text \<open>
  A run of whole operations, one after the other. The result is \<open>None\<close> as soon as one
  of them is.
\<close>

datatype lfc_op =
    Contains RelFileNode int uint32
  | Read RelFileNode int uint32 page
  | Write RelFileNode int uint32 page
  | Evict RelFileNode int uint32 bool
  | SetSizeLimit process int

fun lfc_step :: "lfc_op \<Rightarrow> lfc_state \<Rightarrow> lfc_state option" where
  "lfc_step (Contains rn fk blkno) s = Some s"
| "lfc_step (Read rn fk blkno buffer) s = map_option (\<lambda>r. snd (snd r)) (lfc_read rn fk blkno buffer s)"
| "lfc_step (Write rn fk blkno buffer) s = lfc_write rn fk blkno buffer s"
| "lfc_step (Evict rn fk blkno stack_value) s = lfc_evict rn fk blkno stack_value s"
| "lfc_step (SetSizeLimit p newval) s = Some (set_size_limit p newval s)"

fun lfc_run :: "lfc_op list \<Rightarrow> lfc_state \<Rightarrow> lfc_state option" where
  "lfc_run [] s = Some s"
| "lfc_run (op # ops) s = (case lfc_step op s of None \<Rightarrow> None | Some s1 \<Rightarrow> lfc_run ops s1)"

subsection \<open>Invariants\<close>

text \<open>
  \<open>lfc_inv\<close>: the keys of the hash table are distinct, no node is twice in the list,
  every node of the list belongs to an entry with \<open>access_count = 0\<close>, and every entry
  with \<open>access_count = 0\<close> is in the list.
\<close>

definition lfc_inv :: "lfc_state \<Rightarrow> bool" where
  "lfc_inv s \<longleftrightarrow>
     distinct (map fst (lfc_hash s)) \<and> distinct (ctl_lru s) \<and>
     list_all (\<lambda>k. case map_of (lfc_hash s) k of None \<Rightarrow> False | Some e \<Rightarrow> access_count e = 0) (ctl_lru s) \<and>
     list_all (\<lambda>(k, e). access_count e = 0 \<longrightarrow> k \<in> set (ctl_lru s)) (lfc_hash s)"

text \<open>\<open>lfc_unpinned\<close>: no entry is pinned, as between two operations of one process.\<close>

definition lfc_unpinned :: "lfc_state \<Rightarrow> bool" where
  "lfc_unpinned s \<longleftrightarrow> list_all (\<lambda>(k, e). access_count e = 0) (lfc_hash s)"

text \<open>\<open>lfc_all_pinned\<close>: every chunk that is in the cache is pinned.\<close>

definition lfc_all_pinned :: "lfc_state \<Rightarrow> bool" where
  "lfc_all_pinned s \<longleftrightarrow> list_all (\<lambda>(k, e). access_count e \<noteq> 0) (lfc_hash s)"

text \<open>
  \<open>lfc_seq_inv\<close>: what holds between the operations of a run in which no other
  process is inside an operation.
\<close>

definition lfc_seq_inv :: "lfc_state \<Rightarrow> bool" where
  "lfc_seq_inv s \<longleftrightarrow> lfc_inv s \<and> lfc_unpinned s \<and> unat (ctl_used s) = length (lfc_hash s)"

text \<open>\<open>capacity_chunks\<close>: the chunks of the slab of \<open>lfc_max_size\<close> megabytes.\<close>

definition capacity_chunks :: "lfc_state \<Rightarrow> uint32" where
  "capacity_chunks s = SIZE_MB_TO_CHUNKS (lfc_max_size s)"

subsection \<open>States used as examples\<close>

text \<open>Three relations, the key of the first chunk of each, and a page filled with one byte.\<close>

abbreviation rel3 :: RelFileNode where
  "rel3 \<equiv> \<lparr>spcNode = 1, dbNode = 2, relNode = 3\<rparr>"

abbreviation rel4 :: RelFileNode where
  "rel4 \<equiv> \<lparr>spcNode = 1, dbNode = 2, relNode = 4\<rparr>"

abbreviation rel5 :: RelFileNode where
  "rel5 \<equiv> \<lparr>spcNode = 1, dbNode = 2, relNode = 5\<rparr>"

abbreviation key3 :: BufferTag where
  "key3 \<equiv> \<lparr>rnode = rel3, forkNum = 0, blockNum = 0\<rparr>"

abbreviation key4 :: BufferTag where
  "key4 \<equiv> \<lparr>rnode = rel4, forkNum = 0, blockNum = 0\<rparr>"

abbreviation key5 :: BufferTag where
  "key5 \<equiv> \<lparr>rnode = rel5, forkNum = 0, blockNum = 0\<rparr>"

definition page_of :: "8 word \<Rightarrow> page" where
  "page_of b = replicate BLCKSZ b"

text \<open>
  \<open>two_chunks\<close>: a cache of two chunks after block 0 of \<open>rel3\<close> and block 0 of \<open>rel4\<close>
  were written.
\<close>

definition two_chunks :: lfc_state where
  "two_chunks =
     \<lparr>lfc_max_size = 2, lfc_size_limit = 2,
      lfc_hash =
        [(key3, \<lparr>offset = 0, access_count = 0, bitmap = [1, 0, 0, 0]\<rparr>),
         (key4, \<lparr>offset = 1, access_count = 0, bitmap = [1, 0, 0, 0]\<rparr>)],
      ctl_size = 2, ctl_used = 2, ctl_lru = [key3, key4],
      slab = (\<lambda>_. replicate BLCKSZ 0)(0 := page_of 3, 128 := page_of 4),
      punched = []\<rparr>"

text \<open>
  \<open>pinned_chunk\<close>: \<open>two_chunks\<close> after the first critical section of a write to block 0
  of \<open>rel5\<close>. The new chunk has taken the slot of the first one and is pinned until the
  write reaches its second critical section.
\<close>

definition pinned_chunk :: lfc_state where
  "pinned_chunk =
     \<lparr>lfc_max_size = 2, lfc_size_limit = 2,
      lfc_hash =
        [(key4, \<lparr>offset = 1, access_count = 0, bitmap = [1, 0, 0, 0]\<rparr>),
         (key5, \<lparr>offset = 0, access_count = 1, bitmap = [0, 0, 0, 0]\<rparr>)],
      ctl_size = 2, ctl_used = 2, ctl_lru = [key4],
      slab = (\<lambda>_. replicate BLCKSZ 0)(0 := page_of 3, 128 := page_of 4),
      punched = []\<rparr>"

text \<open>
  \<open>far_chunk\<close>: a cache of 8192 chunks in which 4097 slots have been given out. The
  chunk of \<open>rel3\<close> lies at offset 0 and was used last; the chunk of \<open>rel4\<close> lies at offset
  4096 and is the least recently used one. The other 4095 slots were freed by an earlier
  shrink, whose calls of \<open>madvise\<close> are left out of \<open>punched\<close>.
\<close>

definition far_chunk :: lfc_state where
  "far_chunk =
     \<lparr>lfc_max_size = 8192, lfc_size_limit = 8192,
      lfc_hash =
        [(key3, \<lparr>offset = 0, access_count = 0, bitmap = [1, 0, 0, 0]\<rparr>),
         (key4, \<lparr>offset = 4096, access_count = 0, bitmap = [1, 0, 0, 0]\<rparr>)],
      ctl_size = 4097, ctl_used = 2, ctl_lru = [key4, key3],
      slab = (\<lambda>_. replicate BLCKSZ 0)(0 := page_of 3, 524288 := page_of 4),
      punched = []\<rparr>"

text \<open>A regular backend and a parallel worker.\<close>

definition backend :: process where
  "backend = \<lparr>lfc_ctl_set = True, UsedShmemSegAddr = True, IsParallelWorker = False\<rparr>"

definition parallel_worker :: process where
  "parallel_worker = \<lparr>lfc_ctl_set = True, UsedShmemSegAddr = True, IsParallelWorker = True\<rparr>"

section \<open>Page-store client (pgxn/neon/libpagestore.c)\<close>

subsection \<open>Data\<close>

definition MIN_RECONNECT_INTERVAL_USEC :: uint64 where
  "MIN_RECONNECT_INTERVAL_USEC = 1000"

definition MAX_RECONNECT_INTERVAL_USEC :: uint64 where
  "MAX_RECONNECT_INTERVAL_USEC = 1000000"

text \<open>
  \<open>MAX_SHARDS\<close>, \<open>MAX_PAGESERVER_CONNSTRING_SIZE\<close> and the type \<open>shardno_t\<close> come from
  pagestore\_client.h, which is not among the sources: the two sizes are arguments of
  the functions that use them, and shard numbers are natural numbers.

  \<open>PageServer\<close>: an open connection is the connection string it was opened with;
  \<open>wes\<close> tells whether the wait event set exists.
\<close>

record PageServer =
  conn :: "string option"
  wes :: bool

record ShardMap =
  connstring :: "string list"
  num_shards :: nat

datatype elevel = LOG | ERROR

text \<open>
  What a call can raise: the \<open>ERROR\<close> reports of \<open>load_shard_map\<close> and
  \<open>pageserver_connect\<close>, an interrupt, and two things for which C defines no behaviour,
  a division by zero and a second \<open>PQfinish\<close> and \<open>FreeWaitEventSet\<close> on a connection and
  a wait event set that were freed already.
\<close>

datatype psc_error =
    ShardOutOfRange nat nat
  | ConnectFailed
  | Interrupted
  | DivisionByZero
  | DoubleFree

text \<open>
  The statics of a backend: \<open>page_servers\<close>, \<open>pagestore_local_counter\<close>,
  \<open>n_reconnect_attempts\<close>, and \<open>last_connect_time\<close> and \<open>delay_us\<close> of
  \<open>pageserver_connect\<close> (\<open>TimestampTz\<close> is held as its 64 bits). Three logs record
  what leaves the backend: the calls of \<open>prefetch_on_ps_disconnect\<close>, the arguments of
  \<open>pg_usleep\<close>, and the level of each report of a failed connection attempt.
\<close>

record psc_state =
  page_servers :: "PageServer list"
  pagestore_local_counter :: uint64
  n_reconnect_attempts :: int
  last_connect_time :: uint64
  delay_us :: uint64
  prefetch_resets :: nat
  slept :: "uint64 list"
  failure_reports :: "elevel list"

definition psc_initial :: "nat \<Rightarrow> psc_state" where
  "psc_initial MAX_SHARDS =
     \<lparr>page_servers = replicate MAX_SHARDS \<lparr>conn = None, wes = False\<rparr>,
      pagestore_local_counter = 0, n_reconnect_attempts = 0, last_connect_time = 0,
      delay_us = MIN_RECONNECT_INTERVAL_USEC, prefetch_resets = 0, slept = [],
      failure_reports = []\<rparr>"

text \<open>A call returns a value or raises (\<open>ereport\<close> at \<open>ERROR\<close>), with the state it leaves.\<close>

datatype 'a psc_result = Return 'a psc_state | Raise psc_error psc_state

subsection \<open>\<open>ParseShardMap\<close>\<close>

text \<open>
  The loop of \<open>ParseShardMap\<close> over the rest \<open>p\<close> of the string; \<open>acc\<close> holds the
  connection strings stored so far, so \<open>nshards = length acc\<close>. \<open>None\<close> is the return
  of \<open>false\<close>.
\<close>

function ParseShardMap_loop :: "nat \<Rightarrow> nat \<Rightarrow> string \<Rightarrow> string list \<Rightarrow> string list option" where
  "ParseShardMap_loop MAX_SHARDS MAX_PAGESERVER_CONNSTRING_SIZE p acc =
     (let seg = takeWhile (\<lambda>c. c \<noteq> CHR '','') p;
          sep = dropWhile (\<lambda>c. c \<noteq> CHR '','') p
      in if length seg = 0 \<and> sep = [] then Some acc
         else if MAX_SHARDS \<le> length acc then None
         else if MAX_PAGESERVER_CONNSTRING_SIZE \<le> length seg then None
         else if sep = [] then Some (acc @ [seg])
         else ParseShardMap_loop MAX_SHARDS MAX_PAGESERVER_CONNSTRING_SIZE (tl sep) (acc @ [seg]))"
  by pat_completeness auto
termination
proof (relation "measure (\<lambda>(m, c, p, acc). length p)")
  show "wf (measure (\<lambda>(m, c, p, acc). length p))"
    by simp
next
  fix MAX_SHARDS MAX_PAGESERVER_CONNSTRING_SIZE :: nat
  fix p seg sep :: string and acc :: "string list"
  assume sep: "sep = dropWhile (\<lambda>c. c \<noteq> CHR '','') p" and ne: "sep \<noteq> []"
  have "length (tl sep) < length sep"
    using ne by (cases sep) simp_all
  moreover have "length sep \<le> length p"
    unfolding sep by (rule length_dropWhile_le)
  ultimately show "((MAX_SHARDS, MAX_PAGESERVER_CONNSTRING_SIZE, tl sep, acc @ [seg]),
                    (MAX_SHARDS, MAX_PAGESERVER_CONNSTRING_SIZE, p, acc))
                   \<in> measure (\<lambda>(m, c, p, acc). length p)"
    by simp
qed

declare ParseShardMap_loop.simps [simp del]

definition ParseShardMap :: "nat \<Rightarrow> nat \<Rightarrow> string \<Rightarrow> ShardMap option" where
  "ParseShardMap MAX_SHARDS MAX_PAGESERVER_CONNSTRING_SIZE connstr =
     (case ParseShardMap_loop MAX_SHARDS MAX_PAGESERVER_CONNSTRING_SIZE connstr [] of
        None \<Rightarrow> None
      | Some acc \<Rightarrow>
          Some \<lparr>connstring = acc @ replicate (MAX_SHARDS - length acc) [],
                num_shards = length acc\<rparr>)"

subsection \<open>Disconnecting\<close>

text \<open>
  The source holds two bodies under the name \<open>pageserver_disconnect_shard\<close>. The model
  takes the one that closes the connection and frees the wait event set; the other one
  only calls \<open>prefetch_on_ps_disconnect\<close> and then itself.
\<close>

definition pageserver_disconnect_shard :: "nat \<Rightarrow> psc_state \<Rightarrow> psc_state" where
  "pageserver_disconnect_shard shard_no s =
     s\<lparr>page_servers := (page_servers s)[shard_no := \<lparr>conn = None, wes = False\<rparr>]\<rparr>"

definition pageserver_disconnect :: "nat \<Rightarrow> psc_state \<Rightarrow> psc_state" where
  "pageserver_disconnect shard_no s =
     pageserver_disconnect_shard shard_no
       (if conn (page_servers s ! shard_no) \<noteq> None
        then s\<lparr>prefetch_resets := prefetch_resets s + 1\<rparr> else s)"

subsection \<open>\<open>load_shard_map\<close>\<close>

text \<open>
  One round of the retry loop reads the two counters, copies \<open>num_shards\<close> and the
  connection string of the shard, and reads the two counters again in the loop
  condition. What a round sees is given from outside, since the postmaster writes
  concurrently.
\<close>

record shard_map_read =
  begin_update_counter :: uint64
  end_update_counter :: uint64
  num_shards_copy :: nat
  connstring_copy :: string
  begin_update_counter_after :: uint64
  end_update_counter_after :: uint64

text \<open>
  The \<open>do ... while\<close> loop over the rounds; \<open>None\<close> when no round of the list passes
  the loop condition, that is, the loop has not ended yet.
\<close>

text \<open>A round whose counters pass the loop condition: the copy is consistent.\<close>

definition consistent_read :: "shard_map_read \<Rightarrow> bool" where
  "consistent_read r \<longleftrightarrow>
     \<not> (begin_update_counter r \<noteq> end_update_counter r
        \<or> begin_update_counter r \<noteq> begin_update_counter_after r
        \<or> end_update_counter r \<noteq> end_update_counter_after r)"

fun read_shard_map :: "shard_map_read list \<Rightarrow> shard_map_read option" where
  "read_shard_map [] = None"
| "read_shard_map (r # rs) =
     (if begin_update_counter r \<noteq> end_update_counter r
         \<or> begin_update_counter r \<noteq> begin_update_counter_after r
         \<or> end_update_counter r \<noteq> end_update_counter_after r
      then read_shard_map rs else Some r)"

text \<open>The \<open>for\<close> loop that resets all connections, over the indices \<open>is\<close>.\<close>

fun disconnect_open :: "nat list \<Rightarrow> psc_state \<Rightarrow> psc_state" where
  "disconnect_open [] s = s"
| "disconnect_open (i # is) s =
     disconnect_open is
       (if conn (page_servers s ! i) \<noteq> None then pageserver_disconnect i s else s)"

text \<open>
  \<open>load_shard_map\<close>; \<open>want_connstr\<close> is \<open>connstr_p != NULL\<close>. The call returns the copied
  connection string (empty where the code copies nothing) and the number of shards.
\<close>

definition load_shard_map ::
    "nat \<Rightarrow> nat \<Rightarrow> bool \<Rightarrow> shard_map_read list \<Rightarrow> psc_state \<Rightarrow> (string \<times> nat) psc_result option" where
  "load_shard_map MAX_SHARDS shard_no want_connstr reads s =
     (case read_shard_map reads of
        None \<Rightarrow> None
      | Some r \<Rightarrow>
          Some
           (let connstr = (if want_connstr \<and> shard_no < MAX_SHARDS then connstring_copy r else [])
            in if want_connstr \<and> num_shards_copy r \<le> shard_no
               then Raise (ShardOutOfRange shard_no (num_shards_copy r)) s
               else
                 (let s1 =
                    (if pagestore_local_counter s \<noteq> end_update_counter r
                     then (disconnect_open [0..<MAX_SHARDS] s)
                            \<lparr>pagestore_local_counter := end_update_counter r\<rparr>
                     else s)
                  in Return (connstr, num_shards_copy r) s1)))"

subsection \<open>\<open>get_shard_number\<close>\<close>

text \<open>
  Modelled from the spec: \<open>hash_combine\<close> of PostgreSQL's common/hashfn.h, which is not
  among the sources, as the specification writes it:
  \<open>a \<oplus> (b + 0x9e3779b9 + (a<<6) + (a>>2))\<close>. The 32-bit mix \<open>murmurhash32\<close> of the same
  header is an argument of \<open>get_shard_number\<close>.
\<close>

definition hash_combine :: "uint32 \<Rightarrow> uint32 \<Rightarrow> uint32" where
  "hash_combine a b = a XOR (b + 0x9e3779b9 + push_bit 6 a + drop_bit 2 a)"

text \<open>
  \<open>get_shard_number\<close>. \<open>stripe_size\<close> is the setting, an \<open>int\<close> that the division turns
  into \<open>uint32\<close>. A division or remainder by zero has no defined result in C; the model
  returns it as \<open>Raise DivisionByZero\<close>.
\<close>

definition get_shard_number ::
    "(uint32 \<Rightarrow> uint32) \<Rightarrow> nat \<Rightarrow> int \<Rightarrow> BufferTag \<Rightarrow> shard_map_read list \<Rightarrow> psc_state \<Rightarrow> nat psc_result option" where
  "get_shard_number murmurhash32 MAX_SHARDS stripe_size tag reads s =
     (case load_shard_map MAX_SHARDS 0 False reads s of
        None \<Rightarrow> None
      | Some (Raise e s1) \<Rightarrow> Some (Raise e s1)
      | Some (Return (connstr, n_shards) s1) \<Rightarrow>
          Some
           (if (word_of_int stripe_size :: uint32) = 0 then Raise DivisionByZero s1
            else
              (let hash = murmurhash32 (relNode (rnode tag));
                   hash = hash_combine hash (murmurhash32 (blockNum tag div word_of_int stripe_size))
               in if n_shards = 0 then Raise DivisionByZero s1
                  else Return (unat hash mod n_shards) s1)))"

subsection \<open>\<open>pageserver_connect\<close>\<close>

text \<open>
  The backoff at the head of \<open>pageserver_connect\<close>, with \<open>now\<close> the value of
  \<open>GetCurrentTimestamp()\<close>.
\<close>

definition connect_backoff :: "uint64 \<Rightarrow> psc_state \<Rightarrow> psc_state" where
  "connect_backoff now s =
     (let us_since_last_connect = now - last_connect_time s
      in if us_since_last_connect < MAX_RECONNECT_INTERVAL_USEC
         then s\<lparr>slept := slept s @ [delay_us s], delay_us := delay_us s * 2\<rparr>
         else s\<lparr>delay_us := MIN_RECONNECT_INTERVAL_USEC\<rparr>)"

text \<open>
  What the network does to one attempt: the connection is established, or
  \<open>PQstatus\<close> is \<open>CONNECTION_BAD\<close>, or \<open>PQsendQuery\<close> fails, or \<open>PQconsumeInput\<close> fails
  during the handshake, or \<open>CHECK_FOR_INTERRUPTS\<close> raises during the handshake.
\<close>

datatype connect_outcome =
    Established
  | ConnectionBad
  | SendQueryFailed
  | HandshakeFailed
  | HandshakeInterrupted

record connect_attempt =
  map_reads :: "shard_map_read list"
  time_before :: uint64
  time_connected :: uint64
  outcome :: connect_outcome

text \<open>
  \<open>failed_attempt\<close>: the attempt ends in one of the three failures that
  \<open>pageserver_connect\<close> reports at \<open>elevel\<close>. \<open>shard_map_ok\<close>: the retry loop of
  \<open>load_shard_map\<close> ends for the attempt and the shard number is within the map.
\<close>

definition failed_attempt :: "connect_attempt \<Rightarrow> bool" where
  "failed_attempt a \<longleftrightarrow>
     outcome a = ConnectionBad \<or> outcome a = SendQueryFailed \<or> outcome a = HandshakeFailed"

definition shard_map_ok :: "nat \<Rightarrow> connect_attempt \<Rightarrow> bool" where
  "shard_map_ok shard_no a \<longleftrightarrow>
     (case read_shard_map (map_reads a) of
        None \<Rightarrow> False
      | Some r \<Rightarrow> shard_no < num_shards_copy r)"

text \<open>
  The two failures before the handshake, \<open>CONNECTION_BAD\<close> and a failed
  \<open>PQsendQuery\<close>: \<open>PQfinish(conn)\<close>, the report at \<open>elevel\<close>, and \<open>return false\<close>.
\<close>

definition report_failure :: "elevel \<Rightarrow> psc_state \<Rightarrow> bool psc_result" where
  "report_failure elevel s =
     (let s1 = s\<lparr>failure_reports := failure_reports s @ [elevel]\<rparr>
      in if elevel = ERROR then Raise ConnectFailed s1 else Return False s1)"

text \<open>
  The handshake loop runs inside \<open>PG_TRY\<close>. An error raised there reaches \<open>PG_CATCH\<close>,
  which calls \<open>PQfinish(conn)\<close> and \<open>FreeWaitEventSet(wes)\<close> and rethrows. \<open>freed\<close> tells
  whether the connection and the wait event set had been freed already when the error
  was raised; \<open>PG_CATCH\<close> then frees both a second time.
\<close>

definition pg_catch :: "bool \<Rightarrow> psc_error \<Rightarrow> psc_state \<Rightarrow> bool psc_result" where
  "pg_catch freed e s = (if freed then Raise DoubleFree s else Raise e s)"

text \<open>
  A failed \<open>PQconsumeInput\<close> in the loop: \<open>PQfinish(conn)\<close>, \<open>FreeWaitEventSet(wes)\<close>, the
  report at \<open>elevel\<close>. At \<open>ERROR\<close> the report raises, inside \<open>PG_TRY\<close> and with both
  freed; otherwise the loop is left and the function returns false after \<open>PG_END_TRY\<close>.
\<close>

definition handshake_failure :: "elevel \<Rightarrow> psc_state \<Rightarrow> bool psc_result" where
  "handshake_failure elevel s =
     (let s1 = s\<lparr>failure_reports := failure_reports s @ [elevel]\<rparr>
      in if elevel = ERROR then pg_catch True ConnectFailed s1 else Return False s1)"

definition pageserver_connect ::
    "nat \<Rightarrow> nat \<Rightarrow> elevel \<Rightarrow> connect_attempt \<Rightarrow> psc_state \<Rightarrow> bool psc_result option" where
  "pageserver_connect MAX_SHARDS shard_no elevel a s =
     (case load_shard_map MAX_SHARDS shard_no True (map_reads a) s of
        None \<Rightarrow> None
      | Some (Raise e s1) \<Rightarrow> Some (Raise e s1)
      | Some (Return (connstr, n) s1) \<Rightarrow>
          (let s2 = connect_backoff (time_before a) s1;
               s3 = s2\<lparr>last_connect_time := time_connected a\<rparr>
           in Some
               (case outcome a of
                  Established \<Rightarrow>
                    Return True
                      (s3\<lparr>page_servers :=
                            (page_servers s3)[shard_no := \<lparr>conn = Some connstr, wes = True\<rparr>]\<rparr>)
                | ConnectionBad \<Rightarrow> report_failure elevel s3
                | SendQueryFailed \<Rightarrow> report_failure elevel s3
                | HandshakeFailed \<Rightarrow> handshake_failure elevel s3
                | HandshakeInterrupted \<Rightarrow> pg_catch False Interrupted s3)))"

subsection \<open>\<open>pageserver_send\<close>\<close>

text \<open>
  The reconnect loop of \<open>pageserver_send\<close>,
  \<open>while (!pageserver_connect(shard_no, n_reconnect_attempts < max_reconnect_attempts ? LOG : ERROR))\<close>,
  over the attempts \<open>attempts i\<close>, \<open>attempts (i + 1)\<close>, ... that the network answers.
  \<open>HandleMainLoopInterrupts\<close> is taken to return. The loop ends because an attempt
  reported at \<open>ERROR\<close> never returns false; the lemmas before the termination proof
  say so.
\<close>

lemma disconnect_open_n_reconnect_attempts:
  "n_reconnect_attempts (disconnect_open is s) = n_reconnect_attempts s"
  by (induction "is" arbitrary: s)
     (simp_all add: pageserver_disconnect_def pageserver_disconnect_shard_def)

lemma load_shard_map_n_reconnect_attempts:
  "load_shard_map M shard_no w reads s = Some (Return v s1) \<Longrightarrow>
     n_reconnect_attempts s1 = n_reconnect_attempts s"
  by (auto simp: load_shard_map_def Let_def disconnect_open_n_reconnect_attempts
           split: option.splits if_splits)

lemma report_failure_false:
  "report_failure elevel s = Return False s1 \<Longrightarrow>
     elevel = LOG \<and> n_reconnect_attempts s1 = n_reconnect_attempts s"
  by (cases elevel) (auto simp: report_failure_def Let_def)

lemma handshake_failure_false:
  "handshake_failure elevel s = Return False s1 \<Longrightarrow>
     elevel = LOG \<and> n_reconnect_attempts s1 = n_reconnect_attempts s"
  by (cases elevel) (auto simp: handshake_failure_def pg_catch_def Let_def)

lemma pageserver_connect_false:
  assumes "pageserver_connect M shard_no elevel a s = Some (Return False s1)"
  shows "elevel = LOG \<and> n_reconnect_attempts s1 = n_reconnect_attempts s"
proof -
  from assms obtain connstr n s0 where
    l: "load_shard_map M shard_no True (map_reads a) s = Some (Return (connstr, n) s0)"
    by (auto simp: pageserver_connect_def split: option.splits psc_result.splits)
  have n0: "n_reconnect_attempts s0 = n_reconnect_attempts s"
    using l by (rule load_shard_map_n_reconnect_attempts)
  let ?s3 = "(connect_backoff (time_before a) s0)\<lparr>last_connect_time := time_connected a\<rparr>"
  have n3: "n_reconnect_attempts ?s3 = n_reconnect_attempts s"
    using n0 by (simp add: connect_backoff_def Let_def)
  from assms l have "report_failure elevel ?s3 = Return False s1
      \<or> handshake_failure elevel ?s3 = Return False s1"
    by (cases "outcome a") (simp_all add: pageserver_connect_def pg_catch_def Let_def)
  then show ?thesis
    using report_failure_false [of elevel ?s3 s1] handshake_failure_false [of elevel ?s3 s1] n3
    by auto
qed

function reconnect_loop ::
    "nat \<Rightarrow> int \<Rightarrow> nat \<Rightarrow> (nat \<Rightarrow> connect_attempt) \<Rightarrow> nat \<Rightarrow> psc_state \<Rightarrow> unit psc_result option" where
  "reconnect_loop MAX_SHARDS max_reconnect_attempts shard_no attempts i s =
     (case pageserver_connect MAX_SHARDS shard_no
             (if n_reconnect_attempts s < max_reconnect_attempts then LOG else ERROR)
             (attempts i) s of
        None \<Rightarrow> None
      | Some (Raise e s1) \<Rightarrow> Some (Raise e s1)
      | Some (Return connected s1) \<Rightarrow>
          (if connected then Some (Return () (s1\<lparr>n_reconnect_attempts := 0\<rparr>))
           else reconnect_loop MAX_SHARDS max_reconnect_attempts shard_no attempts (Suc i)
                  (s1\<lparr>n_reconnect_attempts := n_reconnect_attempts s1 + 1\<rparr>)))"
  by pat_completeness auto
termination
proof (relation "measure (\<lambda>(m, mx, sh, att, i, s). nat (mx - n_reconnect_attempts s))")
  show "wf (measure (\<lambda>(m, mx, sh, att, i, s). nat (mx - n_reconnect_attempts s)))"
    by simp
next
  fix MAX_SHARDS :: nat and max_reconnect_attempts :: int and shard_no :: nat
  fix attempts :: "nat \<Rightarrow> connect_attempt" and i :: nat and s s1 :: psc_state
  fix res :: "bool psc_result" and connected :: bool
  assume c: "pageserver_connect MAX_SHARDS shard_no
               (if n_reconnect_attempts s < max_reconnect_attempts then LOG else ERROR)
               (attempts i) s = Some res"
    and r: "res = Return connected s1" and nc: "\<not> connected"
  from c r nc have "pageserver_connect MAX_SHARDS shard_no
               (if n_reconnect_attempts s < max_reconnect_attempts then LOG else ERROR)
               (attempts i) s = Some (Return False s1)"
    by simp
  from pageserver_connect_false [OF this]
  have "n_reconnect_attempts s < max_reconnect_attempts"
    and "n_reconnect_attempts s1 = n_reconnect_attempts s"
    by (auto split: if_splits)
  then show "((MAX_SHARDS, max_reconnect_attempts, shard_no, attempts, Suc i,
               s1\<lparr>n_reconnect_attempts := n_reconnect_attempts s1 + 1\<rparr>),
              (MAX_SHARDS, max_reconnect_attempts, shard_no, attempts, i, s))
             \<in> measure (\<lambda>(m, mx, sh, att, i, s). nat (mx - n_reconnect_attempts s))"
    by simp
qed

declare reconnect_loop.simps [simp del]

text \<open>
  \<open>pageserver_send\<close>: \<open>conn_is_bad\<close> is \<open>PQstatus(conn) == CONNECTION_BAD\<close> on entry,
  \<open>put_copy_ok\<close> is \<open>PQputCopyData(...) > 0\<close>. The shard number indexes
  \<open>page_servers\<close> and is below \<open>MAX_SHARDS\<close>.
\<close>

record send_env =
  conn_is_bad :: bool
  attempts :: "nat \<Rightarrow> connect_attempt"
  put_copy_ok :: bool

definition pageserver_send ::
    "nat \<Rightarrow> int \<Rightarrow> nat \<Rightarrow> send_env \<Rightarrow> psc_state \<Rightarrow> bool psc_result option" where
  "pageserver_send MAX_SHARDS max_reconnect_attempts shard_no env s =
     (let s1 = (if conn (page_servers s ! shard_no) \<noteq> None \<and> conn_is_bad env
                then pageserver_disconnect shard_no s else s)
      in case (if conn (page_servers s1 ! shard_no) = None
               then reconnect_loop MAX_SHARDS max_reconnect_attempts shard_no (attempts env) 0 s1
               else Some (Return () s1)) of
           None \<Rightarrow> None
         | Some (Raise e s2) \<Rightarrow> Some (Raise e s2)
         | Some (Return u s2) \<Rightarrow>
             Some (if \<not> put_copy_ok env then Return False (pageserver_disconnect shard_no s2)
                   else Return True s2))"

subsection \<open>A page server that refuses connections\<close>

text \<open>
  The shard map as it is after startup with a connection string of one shard:
  \<open>PagestoreShmemInit\<close> sets both counters to 0 and calls \<open>AssignPageserverConnstring\<close>,
  which stores the map and brings both counters to 1. Then the attempts against a page
  server that refuses the first \<open>n\<close> connections and accepts the next one. Attempt \<open>i\<close>
  starts at \<open>10^15 + 10^7 * i\<close> microseconds and its \<open>PQconnectdbParams\<close> returns 50
  microseconds before the next attempt starts.
\<close>

definition one_shard :: shard_map_read where
  "one_shard =
     \<lparr>begin_update_counter = 1, end_update_counter = 1, num_shards_copy = 1,
      connstring_copy = ''host=pageserver'', begin_update_counter_after = 1,
      end_update_counter_after = 1\<rparr>"

definition refusing :: "nat \<Rightarrow> nat \<Rightarrow> connect_attempt" where
  "refusing n i =
     \<lparr>map_reads = [one_shard],
      time_before = 1000000000000000 + 10000000 * of_nat i,
      time_connected = 1000000000000000 + 10000000 * of_nat i + 9999950,
      outcome = (if i < n then ConnectionBad else Established)\<rparr>"

text \<open>
  A page server that accepts every connection and fails every handshake
  (\<open>PQconsumeInput\<close> returns 0), with the times of \<open>refusing\<close>.
\<close>

definition failing_handshake :: "nat \<Rightarrow> connect_attempt" where
  "failing_handshake i =
     \<lparr>map_reads = [one_shard],
      time_before = 1000000000000000 + 10000000 * of_nat i,
      time_connected = 1000000000000000 + 10000000 * of_nat i + 9999950,
      outcome = HandshakeFailed\<rparr>"

section \<open>Properties of the local file cache\<close>

subsection \<open>Bits of the bitmap\<close>

lemma and_31_eq_mod: "(co::nat) AND 31 = co mod 32"
proof -
  have "(31::nat) = mask 5" by (simp add: mask_eq_exp_minus_1)
  then have "co AND 31 = take_bit 5 co" by (simp add: take_bit_eq_mask)
  then show ?thesis by (simp add: take_bit_eq_mod)
qed

lemma page_bit_nonzero: "page_bit co \<noteq> 0"
  unfolding page_bit_def and_31_eq_mod push_bit_of_1 by simp

lemma chunk_offs_of_less: "chunk_offs_of blkno < 128"
proof -
  have "unat (blkno AND 127) \<le> unat (127 :: uint32)"
    by (rule word_and_le1 [THEN word_le_nat_alt [THEN iffD1]])
  then show ?thesis by (simp add: chunk_offs_of_def BLOCKS_PER_CHUNK_def)
qed

lemma chunk_word_less: "drop_bit 5 (chunk_offs_of blkno) < 4"
  using chunk_offs_of_less [of blkno] by (simp add: drop_bit_eq_div)

lemma bitmap_test_set:
  "drop_bit 5 co < length bm \<Longrightarrow> bitmap_test (bitmap_set bm co) co"
  by (simp add: bitmap_test_def bitmap_set_def page_bit_nonzero)

lemma SIZE_MB_TO_CHUNKS_0: "SIZE_MB_TO_CHUNKS 0 = 0"
  by (simp add: SIZE_MB_TO_CHUNKS_def)

lemma SIZE_MB_TO_CHUNKS_1: "SIZE_MB_TO_CHUNKS 1 = 1"
  by (simp add: SIZE_MB_TO_CHUNKS_def MB_def BLCKSZ_def BLOCKS_PER_CHUNK_def)

lemma SIZE_MB_TO_CHUNKS_2: "SIZE_MB_TO_CHUNKS 2 = 2"
  by (simp add: SIZE_MB_TO_CHUNKS_def MB_def BLCKSZ_def BLOCKS_PER_CHUNK_def)

lemma chunk_tag_0: "chunk_tag rn fk 0 = \<lparr>rnode = rn, forkNum = fk, blockNum = 0\<rparr>"
  by (simp add: chunk_tag_def)

lemma chunk_offs_of_0: "chunk_offs_of 0 = 0"
  by (simp add: chunk_offs_of_def)

lemma replicate_4: "replicate 4 x = [x, x, x, x]"
  by (simp add: numeral_eq_Suc)

lemma new_entry_eq: "new_entry off = \<lparr>offset = off, access_count = 1, bitmap = [0, 0, 0, 0]\<rparr>"
  by (simp add: new_entry_def BLOCKS_PER_CHUNK_def replicate_4)

lemma bitmap_set_new_0: "bitmap_set [0, 0, 0, 0] 0 = [1, 0, 0, 0]"
  by (simp add: bitmap_set_def page_bit_def)

lemma bitmap_clear_0: "bitmap_clear [1, 0, 0, 0] 0 = [0, 0, 0, 0]"
  by (simp add: bitmap_clear_def page_bit_def)

lemma bitmap_clear_zero: "bitmap_clear [0, 0, 0, 0] 0 = [0, 0, 0, 0]"
  by (simp add: bitmap_clear_def)

lemma bitmap_test_0: "bitmap_test [1, 0, 0, 0] 0"
  by (simp add: bitmap_test_def page_bit_def)

lemma length_page_of: "length (page_of b) = BLCKSZ"
  by (simp add: page_of_def)

lemma take_page_of: "take BLCKSZ (page_of b) = page_of b"
  by (simp add: page_of_def)

subsection \<open>Unlinking a node\<close>

lemma dlist_delete_linked: "k \<in> set xs \<Longrightarrow> dlist_delete k xs = Some (remove1 k xs)"
  by (simp add: dlist_delete_def)

lemma dlist_delete_unlinked: "k \<notin> set xs \<Longrightarrow> dlist_delete k xs = None"
  by (simp add: dlist_delete_def)

lemma lfc_pin_linked:
  "access_count e = 0 \<Longrightarrow> tag \<in> set (ctl_lru s) \<Longrightarrow>
     lfc_pin tag e s =
       Some (s\<lparr>lfc_hash := AList.update tag (e\<lparr>access_count := 1\<rparr>) (lfc_hash s),
               ctl_lru := remove1 tag (ctl_lru s)\<rparr>)"
  by (simp add: lfc_pin_def Let_def dlist_delete_def)

lemma lfc_pin_pinned:
  "access_count e \<noteq> 0 \<Longrightarrow>
     lfc_pin tag e s =
       Some (s\<lparr>lfc_hash := AList.update tag (e\<lparr>access_count := access_count e + 1\<rparr>) (lfc_hash s)\<rparr>)"
  by (simp add: lfc_pin_def Let_def)

lemma lfc_pin_unlinked:
  "access_count e = 0 \<Longrightarrow> tag \<notin> set (ctl_lru s) \<Longrightarrow> lfc_pin tag e s = None"
  by (simp add: lfc_pin_def Let_def dlist_delete_def)

subsection \<open>Writing a page and reading it back\<close>

lemma lfc_write_fresh:
  assumes "limit \<noteq> 0"
  shows "lfc_write rn fk blkno buf (lfc_shmem_startup max_size limit) =
     Some \<lparr>lfc_max_size = max_size, lfc_size_limit = limit,
      lfc_hash = [(chunk_tag rn fk blkno,
         \<lparr>offset = 0, access_count = 0,
          bitmap = bitmap_set [0, 0, 0, 0] (chunk_offs_of blkno)\<rparr>)],
      ctl_size = 1, ctl_used = 1, ctl_lru = [chunk_tag rn fk blkno],
      slab = (\<lambda>_. replicate BLCKSZ 0)(chunk_offs_of blkno := take BLCKSZ buf), punched = []\<rparr>"
  using assms
  by (simp add: lfc_write_def lfc_write_enter_def lfc_write_copy_def lfc_write_finish_def
      lfc_unpin_def lfc_shmem_startup_def page_slot_def dlist_push_tail_def new_entry_eq Let_def)

lemma lfc_read_found:
  assumes "lfc_size_limit s \<noteq> 0" and "map_of (lfc_hash s) (chunk_tag rn fk blkno) = Some e"
    and "bitmap_test (bitmap e) (chunk_offs_of blkno)"
    and "access_count e = 0" and "chunk_tag rn fk blkno \<in> set (ctl_lru s)"
  shows "lfc_read rn fk blkno buffer s =
           Some (True, slab s (page_slot e (chunk_offs_of blkno)),
             s\<lparr>lfc_hash := AList.update (chunk_tag rn fk blkno) (e\<lparr>access_count := 0\<rparr>) (lfc_hash s),
               ctl_lru := remove1 (chunk_tag rn fk blkno) (ctl_lru s) @ [chunk_tag rn fk blkno]\<rparr>)"
  using assms
  by (simp add: lfc_read_def Let_def lfc_pin_linked lfc_unpin_def update_conv'
      dlist_push_tail_def)

text \<open>
  Claim C1. In a cache fresh from \<open>lfc_shmem_startup\<close> whose size limit is at least one
  chunk, \<open>lfc_write\<close> of a page buffer at any block number followed by \<open>lfc_read\<close> of the
  same block number returns true and leaves the written buffer in the output buffer.
\<close>

theorem lfc_write_read_roundtrip:
  assumes limit: "1 \<le> SIZE_MB_TO_CHUNKS limit" and buf: "length buf = BLCKSZ"
  shows "\<exists>s1 s2. lfc_write rn fk blkno buf (lfc_shmem_startup max_size limit) = Some s1
                \<and> lfc_read rn fk blkno out s1 = Some (True, buf, s2)"
proof -
  have nz: "limit \<noteq> 0"
    using limit by (auto simp: SIZE_MB_TO_CHUNKS_0)
  let ?tag = "chunk_tag rn fk blkno"
  let ?e = "\<lparr>offset = 0, access_count = 0,
             bitmap = bitmap_set [0, 0, 0, 0] (chunk_offs_of blkno)\<rparr>"
  let ?s1 = "\<lparr>lfc_max_size = max_size, lfc_size_limit = limit, lfc_hash = [(?tag, ?e)],
      ctl_size = 1, ctl_used = 1, ctl_lru = [?tag],
      slab = (\<lambda>_. replicate BLCKSZ 0)(chunk_offs_of blkno := take BLCKSZ buf), punched = []\<rparr>"
  have w: "lfc_write rn fk blkno buf (lfc_shmem_startup max_size limit) = Some ?s1"
    using nz by (rule lfc_write_fresh)
  have len: "drop_bit 5 (chunk_offs_of blkno) < length [0, 0, 0, 0 :: uint32]"
    using chunk_word_less [of blkno] by simp
  have bit: "bitmap_test (bitmap ?e) (chunk_offs_of blkno)"
    using bitmap_test_set [OF len] by simp
  have "lfc_read rn fk blkno out ?s1 =
          Some (True, slab ?s1 (page_slot ?e (chunk_offs_of blkno)),
            ?s1\<lparr>lfc_hash := AList.update ?tag (?e\<lparr>access_count := 0\<rparr>) (lfc_hash ?s1),
                ctl_lru := remove1 ?tag (ctl_lru ?s1) @ [?tag]\<rparr>)"
    using nz bit by (intro lfc_read_found) simp_all
  moreover have "slab ?s1 (page_slot ?e (chunk_offs_of blkno)) = buf"
    using buf by (simp add: page_slot_def)
  ultimately show ?thesis
    using w by simp
qed

text \<open>Block 130 of a relation, the third page of its second chunk.\<close>

theorem lfc_write_read_roundtrip_witness:
  "1 \<le> SIZE_MB_TO_CHUNKS 1 \<and> length (page_of 7) = BLCKSZ
   \<and> (\<exists>s1 s2. lfc_write rel3 0 130 (page_of 7) (lfc_shmem_startup 1 1) = Some s1
              \<and> lfc_read rel3 0 130 [] s1 = Some (True, page_of 7, s2))"
proof -
  have limit: "1 \<le> SIZE_MB_TO_CHUNKS 1"
    by (simp add: SIZE_MB_TO_CHUNKS_1)
  have buf: "length (page_of 7) = BLCKSZ"
    by (rule length_page_of)
  show ?thesis
    using limit buf lfc_write_read_roundtrip [OF limit buf] by simp
qed

subsection \<open>Association lists and the invariants\<close>

lemma list_all_map_of:
  "distinct (map fst al) \<Longrightarrow>
     list_all (\<lambda>(k, e). P k e) al \<longleftrightarrow> (\<forall>k e. map_of al k = Some e \<longrightarrow> P k e)"
  by (auto simp: list_all_iff)

declare map_of_eq_Some_iff [simp del]

lemma length_eq_card_dom:
  "distinct (map fst al) \<Longrightarrow> length al = card (dom (map_of al))"
  using distinct_card [of "map fst al"] by (simp add: dom_map_of_conv_image_fst)

lemma lfc_inv_iff:
  "lfc_inv s \<longleftrightarrow>
     distinct (map fst (lfc_hash s)) \<and> distinct (ctl_lru s) \<and>
     (\<forall>k. k \<in> set (ctl_lru s) \<longleftrightarrow> (\<exists>e. map_of (lfc_hash s) k = Some e \<and> access_count e = 0))"
proof (cases "distinct (map fst (lfc_hash s))")
  case True
  show ?thesis
    unfolding lfc_inv_def list_all_map_of [OF True]
    using True by (auto simp: list_all_iff split: option.splits)
next
  case False
  then show ?thesis by (simp add: lfc_inv_def)
qed

lemma lfc_seq_inv_iff:
  "lfc_seq_inv s \<longleftrightarrow>
     distinct (map fst (lfc_hash s)) \<and> distinct (ctl_lru s) \<and>
     set (ctl_lru s) = dom (map_of (lfc_hash s)) \<and>
     (\<forall>k e. map_of (lfc_hash s) k = Some e \<longrightarrow> access_count e = 0) \<and>
     unat (ctl_used s) = card (dom (map_of (lfc_hash s)))"
proof (cases "distinct (map fst (lfc_hash s))")
  case True
  show ?thesis
    unfolding lfc_seq_inv_def lfc_inv_iff lfc_unpinned_def list_all_map_of [OF True]
      length_eq_card_dom [OF True]
    using True by (auto simp: dom_def)
next
  case False
  then show ?thesis by (simp add: lfc_seq_inv_def lfc_inv_iff)
qed

lemma lfc_seq_inv_imp_inv: "lfc_seq_inv s \<Longrightarrow> lfc_inv s"
  by (simp add: lfc_seq_inv_def)

lemma lfc_seq_inv_startup: "lfc_seq_inv (lfc_shmem_startup max_size limit)"
  by (simp add: lfc_seq_inv_iff lfc_shmem_startup_def)

lemma set_remove1_append:
  "distinct xs \<Longrightarrow> k \<in> set xs \<Longrightarrow> set (remove1 k xs @ [k]) = set xs"
  by (auto simp: set_remove1_eq)

lemma lfc_inv_head:
  assumes "lfc_inv s" and "ctl_lru s = victim # rest"
  shows "\<exists>v. map_of (lfc_hash s) victim = Some v \<and> access_count v = 0"
  using assms by (auto simp: lfc_inv_iff)

lemma lfc_inv_linked_iff:
  "lfc_inv s \<Longrightarrow> map_of (lfc_hash s) k = Some e \<Longrightarrow> k \<in> set (ctl_lru s) \<longleftrightarrow> access_count e = 0"
  by (auto simp: lfc_inv_iff)

lemma lfc_inv_linked_present:
  "lfc_inv s \<Longrightarrow> k \<in> set (ctl_lru s) \<Longrightarrow> \<exists>e. map_of (lfc_hash s) k = Some e"
  by (auto simp: lfc_inv_iff)

lemma lfc_inv_pinned_not_linked:
  assumes "lfc_inv s" and "map_of (lfc_hash s) k = Some e" and "access_count e \<noteq> 0"
  shows "k \<notin> set (ctl_lru s)"
  using assms by (auto simp: lfc_inv_iff)

subsection \<open>Whole operations, one after the other\<close>

lemma lfc_read_seq_inv:
  assumes inv: "lfc_seq_inv s"
  shows "\<exists>r b s'. lfc_read rn fk blkno buffer s = Some (r, b, s') \<and> lfc_seq_inv s'"
proof -
  let ?tag = "chunk_tag rn fk blkno"
  show ?thesis
  proof (cases "lfc_size_limit s \<noteq> 0 \<and>
      (\<exists>e. map_of (lfc_hash s) ?tag = Some e \<and> bitmap_test (bitmap e) (chunk_offs_of blkno))")
    case False
    then have "lfc_read rn fk blkno buffer s = Some (False, buffer, s)"
      by (auto simp: lfc_read_def Let_def split: option.splits)
    with inv show ?thesis by blast
  next
    case True
    then obtain e where nz: "lfc_size_limit s \<noteq> 0" and e: "map_of (lfc_hash s) ?tag = Some e"
      and bit: "bitmap_test (bitmap e) (chunk_offs_of blkno)"
      by blast
    from inv e have ac: "access_count e = 0" and mem: "?tag \<in> set (ctl_lru s)"
      by (auto simp: lfc_seq_inv_iff)
    have same: "e\<lparr>access_count := 0\<rparr> = e"
      using ac by simp
    have m: "map_of (AList.update ?tag e (lfc_hash s)) = map_of (lfc_hash s)"
      using e by (simp add: update_conv' fun_upd_idem)
    have "lfc_seq_inv (s\<lparr>lfc_hash := AList.update ?tag (e\<lparr>access_count := 0\<rparr>) (lfc_hash s),
               ctl_lru := remove1 ?tag (ctl_lru s) @ [?tag]\<rparr>)"
      unfolding same using inv mem m
      by (auto simp: lfc_seq_inv_iff distinct_update set_remove1_append)
    with lfc_read_found [OF nz e bit ac mem, of buffer] show ?thesis
      by blast
  qed
qed

lemma lfc_write_enter_found:
  "map_of (lfc_hash s) tag = Some e \<Longrightarrow> lfc_write_enter tag s = lfc_pin tag e s"
  by (simp add: lfc_write_enter_def)

lemma lfc_write_enter_victim:
  assumes "map_of (lfc_hash s) tag = None"
    and "SIZE_MB_TO_CHUNKS (lfc_size_limit s) \<le> ctl_used s"
    and "ctl_lru s = victim # rest"
    and "map_of (lfc_hash s) victim = Some v"
  shows "lfc_write_enter tag s =
           Some (s\<lparr>ctl_lru := rest,
             lfc_hash := AList.delete victim (AList.update tag (new_entry (offset v)) (lfc_hash s))\<rparr>)"
  using assms by (simp add: lfc_write_enter_def)

lemma lfc_write_enter_fresh:
  assumes "map_of (lfc_hash s) tag = None"
    and "\<not> SIZE_MB_TO_CHUNKS (lfc_size_limit s) \<le> ctl_used s \<or> ctl_lru s = []"
  shows "lfc_write_enter tag s =
           Some (s\<lparr>ctl_used := ctl_used s + 1, ctl_size := ctl_size s + 1,
             lfc_hash := AList.update tag (new_entry (ctl_size s)) (lfc_hash s)\<rparr>)"
  using assms by (auto simp: lfc_write_enter_def)

text \<open>What \<open>lfc_write\<close> leaves in each of its three cases.\<close>

lemma lfc_write_found:
  assumes "lfc_size_limit s \<noteq> 0" and "map_of (lfc_hash s) (chunk_tag rn fk blkno) = Some e"
    and "access_count e = 0" and "chunk_tag rn fk blkno \<in> set (ctl_lru s)"
  shows "lfc_write rn fk blkno buf s =
           Some (s\<lparr>lfc_hash := AList.update (chunk_tag rn fk blkno)
                  (e\<lparr>access_count := 0, bitmap := bitmap_set (bitmap e) (chunk_offs_of blkno)\<rparr>)
                  (lfc_hash s),
             ctl_lru := remove1 (chunk_tag rn fk blkno) (ctl_lru s) @ [chunk_tag rn fk blkno],
             slab := (slab s)(page_slot e (chunk_offs_of blkno) := take BLCKSZ buf)\<rparr>)"
  using assms
  by (simp add: lfc_write_def lfc_write_enter_found lfc_pin_linked lfc_write_copy_def
      lfc_write_finish_def lfc_unpin_def Let_def update_conv' page_slot_def
      dlist_push_tail_def)

lemma lfc_write_victim:
  assumes "lfc_size_limit s \<noteq> 0" and "map_of (lfc_hash s) (chunk_tag rn fk blkno) = None"
    and "SIZE_MB_TO_CHUNKS (lfc_size_limit s) \<le> ctl_used s"
    and "ctl_lru s = victim # rest"
    and "map_of (lfc_hash s) victim = Some v"
  shows "lfc_write rn fk blkno buf s =
           Some (s\<lparr>lfc_hash := AList.update (chunk_tag rn fk blkno)
                  \<lparr>offset = offset v, access_count = 0,
                   bitmap = bitmap_set [0, 0, 0, 0] (chunk_offs_of blkno)\<rparr>
                  (AList.delete victim (lfc_hash s)),
             ctl_lru := rest @ [chunk_tag rn fk blkno],
             slab := (slab s)(unat (offset v) * BLOCKS_PER_CHUNK + chunk_offs_of blkno
                        := take BLCKSZ buf)\<rparr>)"
proof -
  have ne: "chunk_tag rn fk blkno \<noteq> victim"
    using assms(2,5) by auto
  show ?thesis
    using assms ne
    by (simp add: lfc_write_def lfc_write_enter_victim [OF assms(2-5)] lfc_write_copy_def
        lfc_write_finish_def lfc_unpin_def Let_def update_conv' delete_conv' page_slot_def
        dlist_push_tail_def new_entry_eq delete_update)
qed

lemma lfc_write_fresh_slot:
  assumes "lfc_size_limit s \<noteq> 0" and "map_of (lfc_hash s) (chunk_tag rn fk blkno) = None"
    and "\<not> SIZE_MB_TO_CHUNKS (lfc_size_limit s) \<le> ctl_used s \<or> ctl_lru s = []"
  shows "lfc_write rn fk blkno buf s =
           Some (s\<lparr>ctl_used := ctl_used s + 1, ctl_size := ctl_size s + 1,
             lfc_hash := AList.update (chunk_tag rn fk blkno)
                  \<lparr>offset = ctl_size s, access_count = 0,
                   bitmap = bitmap_set [0, 0, 0, 0] (chunk_offs_of blkno)\<rparr>
                  (lfc_hash s),
             ctl_lru := ctl_lru s @ [chunk_tag rn fk blkno],
             slab := (slab s)(unat (ctl_size s) * BLOCKS_PER_CHUNK + chunk_offs_of blkno
                        := take BLCKSZ buf)\<rparr>)"
  using assms(1)
  by (simp add: lfc_write_def lfc_write_enter_fresh [OF assms(2,3)] lfc_write_copy_def
      lfc_write_finish_def lfc_unpin_def Let_def update_conv' page_slot_def
      dlist_push_tail_def new_entry_eq)

lemma unat_succ_if_less:
  assumes "(x :: uint32) < y"
  shows "unat (x + 1) = Suc (unat x)"
proof -
  from assms have "unat x < unat y"
    by (simp add: word_less_nat_alt)
  moreover have "unat y < 2 ^ 32"
    using unsigned_less [of y] by simp
  ultimately have "unat x + unat (1 :: uint32) < 2 ^ LENGTH(32)"
    by simp
  then show ?thesis
    by (simp add: unat_add_lem [THEN iffD1])
qed

lemma lfc_seq_inv_lru_empty:
  "lfc_seq_inv s \<Longrightarrow> ctl_lru s = [] \<Longrightarrow> ctl_used s = 0"
  using unat_0_iff [of "ctl_used s"] by (simp add: lfc_seq_inv_iff)

lemma lfc_write_seq_inv:
  assumes inv: "lfc_seq_inv s"
  shows "\<exists>s'. lfc_write rn fk blkno buf s = Some s' \<and> lfc_seq_inv s'
              \<and> ctl_used s \<le> ctl_used s'"
proof (cases "lfc_size_limit s = 0")
  case True
  then show ?thesis using inv by (simp add: lfc_write_def)
next
  case nz: False
  let ?tag = "chunk_tag rn fk blkno"
  show ?thesis
  proof (cases "map_of (lfc_hash s) ?tag")
    case (Some e)
    with inv have ac: "access_count e = 0" and mem: "?tag \<in> set (ctl_lru s)"
      by (auto simp: lfc_seq_inv_iff)
    have dom: "insert ?tag (dom (map_of (lfc_hash s))) = dom (map_of (lfc_hash s))"
      using Some by auto
    show ?thesis
      unfolding lfc_write_found [OF nz Some ac mem]
      using inv mem dom
      by (auto simp: lfc_seq_inv_iff distinct_update update_conv' set_remove1_append)
  next
    case None
    show ?thesis
    proof (cases "SIZE_MB_TO_CHUNKS (lfc_size_limit s) \<le> ctl_used s \<and> ctl_lru s \<noteq> []")
      case True
      then obtain victim rest where lru: "ctl_lru s = victim # rest"
        by (cases "ctl_lru s") auto
      with inv have "victim \<in> dom (map_of (lfc_hash s))"
        by (auto simp: lfc_seq_inv_iff)
      then obtain v where v: "map_of (lfc_hash s) victim = Some v"
        by blast
      from True have full: "SIZE_MB_TO_CHUNKS (lfc_size_limit s) \<le> ctl_used s" by simp
      have ne: "?tag \<noteq> victim" using None v by auto
      have notin: "?tag \<notin> set rest" "victim \<notin> set rest"
        using inv lru None by (auto simp: lfc_seq_inv_iff)
      have fin: "finite (dom (map_of (lfc_hash s)))" by (rule finite_dom_map_of)
      have "victim \<in> dom (map_of (lfc_hash s))"
        using v by blast
      then have "Suc (card (dom (map_of (lfc_hash s)) - {victim})) = card (dom (map_of (lfc_hash s)))"
        using fin by (rule card_Suc_Diff1 [rotated])
      moreover have "?tag \<notin> dom (map_of (lfc_hash s)) - {victim}"
        using None by (simp add: domIff)
      ultimately have card:
        "card (insert ?tag (dom (map_of (lfc_hash s)) - {victim})) = card (dom (map_of (lfc_hash s)))"
        using fin by simp
      have set_rest: "set rest = dom (map_of (lfc_hash s)) - {victim}"
        using inv lru by (auto simp: lfc_seq_inv_iff)
      show ?thesis
        unfolding lfc_write_victim [OF nz None full lru v]
        using inv notin ne card set_rest
        by (auto simp: lfc_seq_inv_iff distinct_update distinct_delete update_conv' delete_conv' lru
            split: if_splits)
    next
      case False
      then have fresh: "\<not> SIZE_MB_TO_CHUNKS (lfc_size_limit s) \<le> ctl_used s \<or> ctl_lru s = []"
        by simp
      have nowrap: "unat (ctl_used s + 1) = Suc (unat (ctl_used s))"
        using fresh lfc_seq_inv_lru_empty [OF inv]
        by (auto simp: not_le unat_succ_if_less)
      then have le: "ctl_used s \<le> ctl_used s + 1"
        by (simp add: word_le_nat_alt)
      have notin: "?tag \<notin> set (ctl_lru s)"
        using inv None by (auto simp: lfc_seq_inv_iff)
      have fin: "finite (dom (map_of (lfc_hash s)))" by (rule finite_dom_map_of)
      have card: "card (insert ?tag (dom (map_of (lfc_hash s)))) = Suc (card (dom (map_of (lfc_hash s))))"
        using None fin by (simp add: domIff)
      show ?thesis
        unfolding lfc_write_fresh_slot [OF nz None fresh]
        using inv notin nowrap card le
        by (auto simp: lfc_seq_inv_iff distinct_update update_conv'
            split: if_splits)
    qed
  qed
qed

subsection \<open>Eviction of a page\<close>

lemma lfc_evict_found:
  assumes "lfc_size_limit s \<noteq> 0" and "map_of (lfc_hash s) (chunk_tag rn fk blkno) = Some e"
  shows "lfc_evict rn fk blkno stack_value s =
     (let bm = bitmap_clear (bitmap e) (chunk_offs_of blkno);
          s1 = s\<lparr>lfc_hash := AList.update (chunk_tag rn fk blkno) (e\<lparr>bitmap := bm\<rparr>) (lfc_hash s)\<rparr>
      in if bm ! (drop_bit 5 (chunk_offs_of blkno)) = 0 \<and> \<not> has_remaining_pages_of bm stack_value
         then (if chunk_tag rn fk blkno \<in> set (ctl_lru s)
               then Some (s1\<lparr>ctl_lru := chunk_tag rn fk blkno # remove1 (chunk_tag rn fk blkno) (ctl_lru s)\<rparr>)
               else None)
         else Some s1)"
  using assms by (simp add: lfc_evict_def Let_def dlist_push_head_def dlist_delete_def)

lemma lfc_evict_seq_inv:
  assumes inv: "lfc_seq_inv s"
  shows "\<exists>s'. lfc_evict rn fk blkno stack_value s = Some s' \<and> lfc_seq_inv s'
              \<and> ctl_used s' = ctl_used s"
proof (cases "lfc_size_limit s = 0")
  case True
  then show ?thesis using inv by (simp add: lfc_evict_def)
next
  case nz: False
  let ?tag = "chunk_tag rn fk blkno"
  show ?thesis
  proof (cases "map_of (lfc_hash s) ?tag")
    case None
    then show ?thesis using inv nz by (simp add: lfc_evict_def)
  next
    case (Some e)
    with inv have ac: "access_count e = 0" and mem: "?tag \<in> set (ctl_lru s)"
      by (auto simp: lfc_seq_inv_iff)
    have dom: "insert ?tag (dom (map_of (lfc_hash s))) = dom (map_of (lfc_hash s))"
      using Some by auto
    have set: "insert ?tag (set (ctl_lru s)) = set (ctl_lru s)"
      using mem by auto
    show ?thesis
      unfolding lfc_evict_found [OF nz Some]
      using inv mem dom set ac
      by (auto simp: lfc_seq_inv_iff Let_def distinct_update update_conv')
  qed
qed

subsection \<open>The shrink loop\<close>

lemma lfc_shrink_stop:
  "\<not> (new_size < ctl_used s \<and> ctl_lru s \<noteq> []) \<Longrightarrow> lfc_shrink new_size s = s"
  by (subst lfc_shrink.simps) simp

lemma lfc_shrink_round:
  assumes "new_size < ctl_used s" and "ctl_lru s = victim # rest"
    and "map_of (lfc_hash s) victim = Some v"
  shows "lfc_shrink new_size s =
           lfc_shrink new_size
             (s\<lparr>ctl_lru := rest,
                punched := punched s @ [(punch_address (offset v), CHUNK_SIZE)],
                slab := madvise_remove (punch_address (offset v)) CHUNK_SIZE (slab s),
                lfc_hash := AList.delete victim (lfc_hash s), ctl_used := ctl_used s - 1\<rparr>)"
  using assms by (subst lfc_shrink.simps) simp

lemma lfc_inv_pop:
  assumes inv: "lfc_inv s" and lru: "ctl_lru s = victim # rest"
  shows "lfc_inv (s\<lparr>ctl_lru := rest, punched := pl, slab := sl,
                   lfc_hash := AList.delete victim (lfc_hash s), ctl_used := u\<rparr>)"
proof -
  from inv lru have d: "victim \<notin> set rest" "distinct rest"
    by (auto simp: lfc_inv_iff)
  from inv lru have iff: "\<And>k. k \<in> set rest \<or> k = victim \<longleftrightarrow>
      (\<exists>e. map_of (lfc_hash s) k = Some e \<and> access_count e = 0)"
    by (auto simp: lfc_inv_iff)
  show ?thesis
    using inv d iff
    by (auto simp: lfc_inv_iff distinct_delete delete_conv')
qed

lemma lfc_shrink_inv: "lfc_inv s \<Longrightarrow> lfc_inv (lfc_shrink new_size s)"
proof (induction new_size s rule: lfc_shrink.induct)
  case (1 new_size s)
  show ?case
  proof (cases "new_size < ctl_used s \<and> ctl_lru s \<noteq> []")
    case False
    then show ?thesis using "1.prems" by (simp add: lfc_shrink_stop)
  next
    case True
    then obtain victim rest where lru: "ctl_lru s = victim # rest"
      by (cases "ctl_lru s") auto
    from lfc_inv_head [OF "1.prems" lru] obtain v where v: "map_of (lfc_hash s) victim = Some v"
      by blast
    from True have lt: "new_size < ctl_used s" by simp
    show ?thesis
      unfolding lfc_shrink_round [OF lt lru v]
      by (rule "1.IH" [OF True lru v]) (rule lfc_inv_pop [OF "1.prems" lru])
  qed
qed

lemma lfc_shrink_exit:
  "lfc_inv s \<Longrightarrow> \<not> new_size < ctl_used (lfc_shrink new_size s) \<or> ctl_lru (lfc_shrink new_size s) = []"
proof (induction new_size s rule: lfc_shrink.induct)
  case (1 new_size s)
  show ?case
  proof (cases "new_size < ctl_used s \<and> ctl_lru s \<noteq> []")
    case False
    then show ?thesis by (auto simp: lfc_shrink_stop)
  next
    case True
    then obtain victim rest where lru: "ctl_lru s = victim # rest"
      by (cases "ctl_lru s") auto
    from lfc_inv_head [OF "1.prems" lru] obtain v where v: "map_of (lfc_hash s) victim = Some v"
      by blast
    from True have lt: "new_size < ctl_used s" by simp
    show ?thesis
      unfolding lfc_shrink_round [OF lt lru v]
      by (rule "1.IH" [OF True lru v]) (rule lfc_inv_pop [OF "1.prems" lru])
  qed
qed

lemma lfc_shrink_keeps:
  "lfc_inv s \<Longrightarrow> k \<notin> set (ctl_lru s) \<Longrightarrow>
     map_of (lfc_hash (lfc_shrink new_size s)) k = map_of (lfc_hash s) k"
proof (induction new_size s rule: lfc_shrink.induct)
  case (1 new_size s)
  show ?case
  proof (cases "new_size < ctl_used s \<and> ctl_lru s \<noteq> []")
    case False
    then show ?thesis by (simp add: lfc_shrink_stop)
  next
    case True
    then obtain victim rest where lru: "ctl_lru s = victim # rest"
      by (cases "ctl_lru s") auto
    from lfc_inv_head [OF "1.prems"(1) lru] obtain v where v: "map_of (lfc_hash s) victim = Some v"
      by blast
    from True have lt: "new_size < ctl_used s" by simp
    have ne: "k \<noteq> victim" and notin: "k \<notin> set rest"
      using "1.prems"(2) lru by auto
    have "map_of (lfc_hash (lfc_shrink new_size s)) k =
          map_of (lfc_hash (s\<lparr>ctl_lru := rest,
                punched := punched s @ [(punch_address (offset v), CHUNK_SIZE)],
                slab := madvise_remove (punch_address (offset v)) CHUNK_SIZE (slab s),
                lfc_hash := AList.delete victim (lfc_hash s), ctl_used := ctl_used s - 1\<rparr>)) k"
      unfolding lfc_shrink_round [OF lt lru v]
      by (rule "1.IH" [OF True lru v]) (use notin in \<open>simp_all add: lfc_inv_pop [OF "1.prems"(1) lru]\<close>)
    then show ?thesis using ne by (simp add: delete_conv')
  qed
qed

lemma lfc_seq_inv_pop:
  assumes inv: "lfc_seq_inv s" and lru: "ctl_lru s = victim # rest" and nz: "ctl_used s \<noteq> 0"
  shows "lfc_seq_inv (s\<lparr>ctl_lru := rest, punched := pl, slab := sl,
                   lfc_hash := AList.delete victim (lfc_hash s), ctl_used := ctl_used s - 1\<rparr>)"
proof -
  from inv lru have d: "victim \<notin> set rest" "distinct rest"
    and dom: "dom (map_of (lfc_hash s)) = insert victim (set rest)"
    by (auto simp: lfc_seq_inv_iff)
  have set_rest: "set rest = dom (map_of (lfc_hash s)) - {victim}"
    using d dom by auto
  have fin: "finite (dom (map_of (lfc_hash s)))" by (rule finite_dom_map_of)
  have "victim \<in> dom (map_of (lfc_hash s))"
    using dom by simp
  then have "Suc (card (dom (map_of (lfc_hash s)) - {victim})) = card (dom (map_of (lfc_hash s)))"
    using fin by (rule card_Suc_Diff1 [rotated])
  then have card: "card (dom (map_of (lfc_hash s)) - {victim}) = unat (ctl_used s - 1)"
    using inv nz by (simp add: lfc_seq_inv_iff unat_minus_one)
  show ?thesis
    using inv d set_rest card
    by (auto simp: lfc_seq_inv_iff distinct_delete delete_conv' split: if_splits)
qed

lemma lfc_shrink_seq_inv: "lfc_seq_inv s \<Longrightarrow> lfc_seq_inv (lfc_shrink new_size s)"
proof (induction new_size s rule: lfc_shrink.induct)
  case (1 new_size s)
  show ?case
  proof (cases "new_size < ctl_used s \<and> ctl_lru s \<noteq> []")
    case False
    then show ?thesis using "1.prems" by (simp add: lfc_shrink_stop)
  next
    case True
    then obtain victim rest where lru: "ctl_lru s = victim # rest"
      by (cases "ctl_lru s") auto
    from "1.prems" have "lfc_inv s" by (simp add: lfc_seq_inv_def)
    from lfc_inv_head [OF this lru] obtain v where v: "map_of (lfc_hash s) victim = Some v"
      by blast
    from True have lt: "new_size < ctl_used s" by simp
    then have nz: "ctl_used s \<noteq> 0"
      by (auto simp: word_less_nat_alt)
    show ?thesis
      unfolding lfc_shrink_round [OF lt lru v]
      by (rule "1.IH" [OF True lru v]) (rule lfc_seq_inv_pop [OF "1.prems" lru nz])
  qed
qed

lemma set_size_limit_seq_inv: "lfc_seq_inv s \<Longrightarrow> lfc_seq_inv (set_size_limit p newval s)"
proof -
  assume inv: "lfc_seq_inv s"
  have "lfc_seq_inv (lfc_change_limit_hook p newval s)"
    using inv by (simp add: lfc_change_limit_hook_def Let_def lfc_shrink_seq_inv)
  then have "lfc_seq_inv ((lfc_change_limit_hook p newval s)\<lparr>lfc_size_limit := newval\<rparr>)"
    by (simp add: lfc_seq_inv_iff)
  then show ?thesis
    using inv by (simp add: set_size_limit_def)
qed

lemma lfc_step_seq_inv:
  assumes inv: "lfc_seq_inv s"
  shows "\<exists>s'. lfc_step op s = Some s' \<and> lfc_seq_inv s'"
proof (cases op)
  case (Contains rn fk blkno)
  then show ?thesis using inv by simp
next
  case (Read rn fk blkno buffer)
  from lfc_read_seq_inv [OF inv, of rn fk blkno buffer] obtain r b s'
    where "lfc_read rn fk blkno buffer s = Some (r, b, s')" and "lfc_seq_inv s'"
    by blast
  then show ?thesis using Read by simp
next
  case (Write rn fk blkno buffer)
  then show ?thesis using lfc_write_seq_inv [OF inv, of rn fk blkno buffer] by auto
next
  case (Evict rn fk blkno stack_value)
  then show ?thesis using lfc_evict_seq_inv [OF inv, of rn fk blkno stack_value] by auto
next
  case (SetSizeLimit p newval)
  then show ?thesis using set_size_limit_seq_inv [OF inv, of p newval] by simp
qed

lemma lfc_run_seq_inv: "lfc_seq_inv s \<Longrightarrow> \<exists>s'. lfc_run ops s = Some s' \<and> lfc_seq_inv s'"
proof (induction ops arbitrary: s)
  case Nil
  then show ?case by simp
next
  case (Cons op ops)
  from lfc_step_seq_inv [OF Cons.prems, of op] obtain s1
    where s1: "lfc_step op s = Some s1" and inv1: "lfc_seq_inv s1"
    by blast
  from Cons.IH [OF inv1] show ?case
    using s1 by simp
qed

lemma lfc_reachable_seq_inv:
  "\<exists>s. lfc_run ops (lfc_shmem_startup max_size limit) = Some s \<and> lfc_seq_inv s"
  by (rule lfc_run_seq_inv) (rule lfc_seq_inv_startup)

subsection \<open>Admission of a new chunk\<close>

lemma word_less_succ:
  assumes "(x :: uint32) + 1 \<noteq> 0"
  shows "x < x + 1"
proof -
  from assms have "1 + x \<noteq> 0"
    by (simp add: add.commute)
  then have "unat (1 + x) = Suc (unat x)"
    by (rule unatSuc)
  then show ?thesis
    by (simp add: word_less_nat_alt add.commute)
qed

text \<open>
  Claim C2. The admission of \<open>lfc_write\<close> for a key that is not in the hash table, in a
  state that satisfies \<open>lfc_inv\<close>. When \<open>used\<close> has reached the limit in chunks and the
  list is not empty, the head of the list is popped; it belongs to an entry with
  \<open>access_count = 0\<close>; the new entry has the offset of that entry, \<open>access_count = 1\<close>
  and an empty bitmap; the victim leaves the hash table, every other entry stays as it
  is, and \<open>used\<close> and \<open>size\<close> stay. Otherwise the new entry has the offset \<open>size\<close>,
  \<open>access_count = 1\<close> and an empty bitmap, \<open>size\<close> and \<open>used\<close> grow by one, and the list
  and every other entry stay; so with an empty list (every chunk pinned) and \<open>size\<close> at
  the limit, \<open>size\<close> passes the limit.
\<close>

theorem lfc_write_admission:
  assumes new: "map_of (lfc_hash s) tag = None" and inv: "lfc_inv s"
  shows "(\<forall>victim rest.
            SIZE_MB_TO_CHUNKS (lfc_size_limit s) \<le> ctl_used s \<and> ctl_lru s = victim # rest \<longrightarrow>
            (\<exists>v s'. map_of (lfc_hash s) victim = Some v \<and> access_count v = 0
               \<and> lfc_write_enter tag s = Some s'
               \<and> ctl_lru s' = rest
               \<and> map_of (lfc_hash s') tag
                   = Some \<lparr>offset = offset v, access_count = 1, bitmap = [0, 0, 0, 0]\<rparr>
               \<and> map_of (lfc_hash s') victim = None
               \<and> (\<forall>k. k \<noteq> tag \<and> k \<noteq> victim \<longrightarrow> map_of (lfc_hash s') k = map_of (lfc_hash s) k)
               \<and> ctl_used s' = ctl_used s
               \<and> ctl_size s' = ctl_size s
               \<and> slab s' = slab s))
       \<and> (\<not> SIZE_MB_TO_CHUNKS (lfc_size_limit s) \<le> ctl_used s \<or> ctl_lru s = [] \<longrightarrow>
            (\<exists>s'. lfc_write_enter tag s = Some s'
               \<and> map_of (lfc_hash s') tag
                   = Some \<lparr>offset = ctl_size s, access_count = 1, bitmap = [0, 0, 0, 0]\<rparr>
               \<and> (\<forall>k. k \<noteq> tag \<longrightarrow> map_of (lfc_hash s') k = map_of (lfc_hash s) k)
               \<and> ctl_size s' = ctl_size s + 1
               \<and> ctl_used s' = ctl_used s + 1
               \<and> ctl_lru s' = ctl_lru s
               \<and> slab s' = slab s))
       \<and> (ctl_lru s = [] \<and> SIZE_MB_TO_CHUNKS (lfc_size_limit s) \<le> ctl_size s \<and> ctl_size s + 1 \<noteq> 0 \<longrightarrow>
            (\<exists>s'. lfc_write_enter tag s = Some s'
               \<and> SIZE_MB_TO_CHUNKS (lfc_size_limit s) < ctl_size s'))"
proof (intro conjI allI impI)
  fix victim rest
  assume a: "SIZE_MB_TO_CHUNKS (lfc_size_limit s) \<le> ctl_used s \<and> ctl_lru s = victim # rest"
  then have full: "SIZE_MB_TO_CHUNKS (lfc_size_limit s) \<le> ctl_used s"
    and lru: "ctl_lru s = victim # rest" by simp_all
  from lfc_inv_head [OF inv lru] obtain v
    where v: "map_of (lfc_hash s) victim = Some v" and ac: "access_count v = 0"
    by blast
  have ne: "tag \<noteq> victim" using new v by auto
  let ?s' = "s\<lparr>ctl_lru := rest,
               lfc_hash := AList.delete victim (AList.update tag (new_entry (offset v)) (lfc_hash s))\<rparr>"
  have enter: "lfc_write_enter tag s = Some ?s'"
    by (rule lfc_write_enter_victim [OF new full lru v])
  have "ctl_lru ?s' = rest
      \<and> map_of (lfc_hash ?s') tag
          = Some \<lparr>offset = offset v, access_count = 1, bitmap = [0, 0, 0, 0]\<rparr>
      \<and> map_of (lfc_hash ?s') victim = None
      \<and> (\<forall>k. k \<noteq> tag \<and> k \<noteq> victim \<longrightarrow> map_of (lfc_hash ?s') k = map_of (lfc_hash s) k)
      \<and> ctl_used ?s' = ctl_used s \<and> ctl_size ?s' = ctl_size s \<and> slab ?s' = slab s"
    using ne by (simp add: delete_conv' update_conv' new_entry_eq)
  with v ac enter
  show "\<exists>v s'. map_of (lfc_hash s) victim = Some v \<and> access_count v = 0
               \<and> lfc_write_enter tag s = Some s'
               \<and> ctl_lru s' = rest
               \<and> map_of (lfc_hash s') tag
                   = Some \<lparr>offset = offset v, access_count = 1, bitmap = [0, 0, 0, 0]\<rparr>
               \<and> map_of (lfc_hash s') victim = None
               \<and> (\<forall>k. k \<noteq> tag \<and> k \<noteq> victim \<longrightarrow> map_of (lfc_hash s') k = map_of (lfc_hash s) k)
               \<and> ctl_used s' = ctl_used s
               \<and> ctl_size s' = ctl_size s
               \<and> slab s' = slab s"
    by blast
next
  assume "\<not> SIZE_MB_TO_CHUNKS (lfc_size_limit s) \<le> ctl_used s \<or> ctl_lru s = []"
  note fresh = lfc_write_enter_fresh [OF new this]
  show "\<exists>s'. lfc_write_enter tag s = Some s'
               \<and> map_of (lfc_hash s') tag
                   = Some \<lparr>offset = ctl_size s, access_count = 1, bitmap = [0, 0, 0, 0]\<rparr>
               \<and> (\<forall>k. k \<noteq> tag \<longrightarrow> map_of (lfc_hash s') k = map_of (lfc_hash s) k)
               \<and> ctl_size s' = ctl_size s + 1
               \<and> ctl_used s' = ctl_used s + 1
               \<and> ctl_lru s' = ctl_lru s
               \<and> slab s' = slab s"
    unfolding fresh by (simp add: update_conv' new_entry_eq)
next
  assume a: "ctl_lru s = [] \<and> SIZE_MB_TO_CHUNKS (lfc_size_limit s) \<le> ctl_size s \<and> ctl_size s + 1 \<noteq> 0"
  then have "\<not> SIZE_MB_TO_CHUNKS (lfc_size_limit s) \<le> ctl_used s \<or> ctl_lru s = []"
    by simp
  note fresh = lfc_write_enter_fresh [OF new this]
  from a have "ctl_size s < ctl_size s + 1"
    by (simp add: word_less_succ)
  moreover from a have "SIZE_MB_TO_CHUNKS (lfc_size_limit s) \<le> ctl_size s"
    by simp
  ultimately have "SIZE_MB_TO_CHUNKS (lfc_size_limit s) < ctl_size s + 1"
    by (rule le_less_trans [rotated])
  then show "\<exists>s'. lfc_write_enter tag s = Some s'
               \<and> SIZE_MB_TO_CHUNKS (lfc_size_limit s) < ctl_size s'"
    unfolding fresh by simp
qed

text \<open>
  A cache of one chunk. With the chunk of \<open>rel3\<close> resident and unpinned, the admission of
  the chunk of \<open>rel4\<close> takes its slot; with the chunk of \<open>rel3\<close> pinned by a write that is
  under way, the admission gives the chunk of \<open>rel4\<close> a second slot, and the chunk of
  \<open>rel3\<close> stays.
\<close>

theorem lfc_write_admission_witness:
  "(\<exists>s. lfc_write rel3 0 0 (page_of 3) (lfc_shmem_startup 1 1) = Some s
       \<and> map_of (lfc_hash s) key4 = None \<and> lfc_inv s
       \<and> SIZE_MB_TO_CHUNKS (lfc_size_limit s) \<le> ctl_used s \<and> ctl_lru s = [key3]
       \<and> (\<exists>s'. lfc_write_enter key4 s = Some s'
             \<and> ctl_lru s' = []
             \<and> map_of (lfc_hash s') key4
                 = Some \<lparr>offset = 0, access_count = 1, bitmap = [0, 0, 0, 0]\<rparr>
             \<and> map_of (lfc_hash s') key3 = None
             \<and> ctl_used s' = 1 \<and> ctl_size s' = 1))
   \<and> (\<exists>s. lfc_write_enter key3 (lfc_shmem_startup 1 1) = Some s
       \<and> map_of (lfc_hash s) key4 = None \<and> lfc_inv s
       \<and> ctl_lru s = [] \<and> SIZE_MB_TO_CHUNKS (lfc_size_limit s) \<le> ctl_size s
       \<and> (\<exists>s'. lfc_write_enter key4 s = Some s'
             \<and> map_of (lfc_hash s') key4
                 = Some \<lparr>offset = 1, access_count = 1, bitmap = [0, 0, 0, 0]\<rparr>
             \<and> map_of (lfc_hash s') key3
                 = Some \<lparr>offset = 0, access_count = 1, bitmap = [0, 0, 0, 0]\<rparr>
             \<and> ctl_size s' = 2 \<and> ctl_used s' = 2
             \<and> SIZE_MB_TO_CHUNKS (lfc_size_limit s) < ctl_size s'))"
proof -
  let ?e3 = "\<lparr>offset = 0, access_count = 0, bitmap = [1, 0, 0, 0]\<rparr>"
  let ?p3 = "\<lparr>offset = 0, access_count = 1, bitmap = [0, 0, 0, 0]\<rparr>"
  let ?sA = "\<lparr>lfc_max_size = 1, lfc_size_limit = 1, lfc_hash = [(key3, ?e3)],
      ctl_size = 1, ctl_used = 1, ctl_lru = [key3],
      slab = (\<lambda>_. replicate BLCKSZ 0)(0 := page_of 3), punched = []\<rparr>"
  let ?sB = "\<lparr>lfc_max_size = 1, lfc_size_limit = 1, lfc_hash = [(key3, ?p3)],
      ctl_size = 1, ctl_used = 1, ctl_lru = [], slab = (\<lambda>_. replicate BLCKSZ 0), punched = []\<rparr>"
  have sA: "lfc_write rel3 0 0 (page_of 3) (lfc_shmem_startup 1 1) = Some ?sA"
    by (simp add: lfc_write_fresh chunk_tag_0 chunk_offs_of_0 bitmap_set_new_0 take_page_of)
  have sB: "lfc_write_enter key3 (lfc_shmem_startup 1 1) = Some ?sB"
    by (simp add: lfc_write_enter_def lfc_shmem_startup_def SIZE_MB_TO_CHUNKS_1 new_entry_eq)
  have newA: "map_of (lfc_hash ?sA) key4 = None"
    by simp
  have invA: "lfc_inv ?sA"
    by (simp add: lfc_inv_def)
  have newB: "map_of (lfc_hash ?sB) key4 = None"
    by simp
  have invB: "lfc_inv ?sB"
    by (simp add: lfc_inv_def)
  have A: "SIZE_MB_TO_CHUNKS (lfc_size_limit ?sA) \<le> ctl_used ?sA \<and> ctl_lru ?sA = [key3]"
    by (simp add: SIZE_MB_TO_CHUNKS_1)
  have B: "ctl_lru ?sB = [] \<and> SIZE_MB_TO_CHUNKS (lfc_size_limit ?sB) \<le> ctl_size ?sB
           \<and> ctl_size ?sB + 1 \<noteq> 0"
    by (simp add: SIZE_MB_TO_CHUNKS_1)
  have vA: "map_of (lfc_hash ?sA) key3 = Some ?e3"
    by simp
  have vB: "map_of (lfc_hash ?sB) key3 = Some ?p3"
    by simp
  from lfc_write_admission [OF newA invA, THEN conjunct1, rule_format, OF A] vA
  have rA: "\<exists>s'. lfc_write_enter key4 ?sA = Some s'
             \<and> ctl_lru s' = []
             \<and> map_of (lfc_hash s') key4
                 = Some \<lparr>offset = 0, access_count = 1, bitmap = [0, 0, 0, 0]\<rparr>
             \<and> map_of (lfc_hash s') key3 = None
             \<and> ctl_used s' = 1 \<and> ctl_size s' = 1"
    by auto
  from lfc_write_admission [OF newB invB, THEN conjunct2, THEN conjunct1] B
  obtain s' where e: "lfc_write_enter key4 ?sB = Some s'"
    and new': "map_of (lfc_hash s') key4
                 = Some \<lparr>offset = ctl_size ?sB, access_count = 1, bitmap = [0, 0, 0, 0]\<rparr>"
    and others: "\<forall>k. k \<noteq> key4 \<longrightarrow> map_of (lfc_hash s') k = map_of (lfc_hash ?sB) k"
    and sz: "ctl_size s' = ctl_size ?sB + 1" and us: "ctl_used s' = ctl_used ?sB + 1"
    by blast
  from others have old: "map_of (lfc_hash s') key3 = Some ?p3"
    by simp
  from lfc_write_admission [OF newB invB, THEN conjunct2, THEN conjunct2] B e
  have over: "SIZE_MB_TO_CHUNKS (lfc_size_limit ?sB) < ctl_size s'"
    by auto
  have rB: "\<exists>s'. lfc_write_enter key4 ?sB = Some s'
             \<and> map_of (lfc_hash s') key4
                 = Some \<lparr>offset = 1, access_count = 1, bitmap = [0, 0, 0, 0]\<rparr>
             \<and> map_of (lfc_hash s') key3
                 = Some \<lparr>offset = 0, access_count = 1, bitmap = [0, 0, 0, 0]\<rparr>
             \<and> ctl_size s' = 2 \<and> ctl_used s' = 2
             \<and> SIZE_MB_TO_CHUNKS (lfc_size_limit ?sB) < ctl_size s'"
    using e new' old sz us over by simp
  have first: "\<exists>s. lfc_write rel3 0 0 (page_of 3) (lfc_shmem_startup 1 1) = Some s
       \<and> map_of (lfc_hash s) key4 = None \<and> lfc_inv s
       \<and> SIZE_MB_TO_CHUNKS (lfc_size_limit s) \<le> ctl_used s \<and> ctl_lru s = [key3]
       \<and> (\<exists>s'. lfc_write_enter key4 s = Some s'
             \<and> ctl_lru s' = []
             \<and> map_of (lfc_hash s') key4
                 = Some \<lparr>offset = 0, access_count = 1, bitmap = [0, 0, 0, 0]\<rparr>
             \<and> map_of (lfc_hash s') key3 = None
             \<and> ctl_used s' = 1 \<and> ctl_size s' = 1)"
    using sA newA invA A rA by blast
  have second: "\<exists>s. lfc_write_enter key3 (lfc_shmem_startup 1 1) = Some s
       \<and> map_of (lfc_hash s) key4 = None \<and> lfc_inv s
       \<and> ctl_lru s = [] \<and> SIZE_MB_TO_CHUNKS (lfc_size_limit s) \<le> ctl_size s
       \<and> (\<exists>s'. lfc_write_enter key4 s = Some s'
             \<and> map_of (lfc_hash s') key4
                 = Some \<lparr>offset = 1, access_count = 1, bitmap = [0, 0, 0, 0]\<rparr>
             \<and> map_of (lfc_hash s') key3
                 = Some \<lparr>offset = 0, access_count = 1, bitmap = [0, 0, 0, 0]\<rparr>
             \<and> ctl_size s' = 2 \<and> ctl_used s' = 2
             \<and> SIZE_MB_TO_CHUNKS (lfc_size_limit s) < ctl_size s')"
    using sB newB invB B rB by blast
  from first second show ?thesis
    by blast
qed

subsection \<open>The example states\<close>

lemma lfc_run_append:
  "lfc_run (xs @ ys) s = (case lfc_run xs s of None \<Rightarrow> None | Some s1 \<Rightarrow> lfc_run ys s1)"
  by (induction xs arbitrary: s) (simp_all split: option.splits)

lemma two_chunks_reached:
  "lfc_run [Write rel3 0 0 (page_of 3), Write rel4 0 0 (page_of 4)] (lfc_shmem_startup 2 2)
     = Some two_chunks"
proof -
  let ?s1 = "\<lparr>lfc_max_size = 2, lfc_size_limit = 2,
      lfc_hash = [(key3, \<lparr>offset = 0, access_count = 0, bitmap = [1, 0, 0, 0]\<rparr>)],
      ctl_size = 1, ctl_used = 1, ctl_lru = [key3],
      slab = (\<lambda>_. replicate BLCKSZ 0)(0 := page_of 3), punched = []\<rparr>"
  have s1: "lfc_write rel3 0 0 (page_of 3) (lfc_shmem_startup 2 2) = Some ?s1"
    by (simp add: lfc_write_fresh chunk_tag_0 chunk_offs_of_0 bitmap_set_new_0 take_page_of)
  have nz: "lfc_size_limit ?s1 \<noteq> 0"
    by simp
  have none: "map_of (lfc_hash ?s1) (chunk_tag rel4 0 0) = None"
    by (simp add: chunk_tag_0)
  have fresh: "\<not> SIZE_MB_TO_CHUNKS (lfc_size_limit ?s1) \<le> ctl_used ?s1 \<or> ctl_lru ?s1 = []"
    by (simp add: SIZE_MB_TO_CHUNKS_2 word_le_nat_alt)
  have "lfc_write rel4 0 0 (page_of 4) ?s1 = Some two_chunks"
    unfolding lfc_write_fresh_slot [OF nz none fresh]
    by (simp add: two_chunks_def chunk_tag_0 chunk_offs_of_0 bitmap_set_new_0 take_page_of
        BLOCKS_PER_CHUNK_def)
  with s1 show ?thesis
    by simp
qed

lemma pinned_chunk_reached: "lfc_write_enter key5 two_chunks = Some pinned_chunk"
  by (simp add: lfc_write_enter_def two_chunks_def pinned_chunk_def SIZE_MB_TO_CHUNKS_2
      new_entry_eq)

lemma lfc_inv_pinned_chunk: "lfc_inv pinned_chunk"
  by (simp add: pinned_chunk_def lfc_inv_def)

lemma lfc_seq_inv_far_chunk: "lfc_seq_inv far_chunk"
  by (simp add: far_chunk_def lfc_seq_inv_def lfc_inv_def lfc_unpinned_def)

subsection \<open>Eviction of the last page of a chunk\<close>

text \<open>
  What \<open>lfc_evict\<close> does for certain when it is defined: the entry stays in the hash
  table with its offset, and while a word of its bitmap is not zero the list is left
  alone.
\<close>

lemma lfc_evict_entry:
  assumes "lfc_size_limit s \<noteq> 0" and "map_of (lfc_hash s) (chunk_tag rn fk blkno) = Some e"
    and "lfc_evict rn fk blkno stack_value s = Some s'"
  shows "map_of (lfc_hash s') (chunk_tag rn fk blkno)
           = Some (e\<lparr>bitmap := bitmap_clear (bitmap e) (chunk_offs_of blkno)\<rparr>)"
  using assms(3) unfolding lfc_evict_found [OF assms(1,2)]
  by (auto simp: Let_def update_conv' split: if_splits)

lemma lfc_evict_pages_remain:
  assumes "lfc_size_limit s \<noteq> 0" and "map_of (lfc_hash s) (chunk_tag rn fk blkno) = Some e"
    and "list_ex (\<lambda>w. w \<noteq> 0)
           (take (BLOCKS_PER_CHUNK div 32) (bitmap_clear (bitmap e) (chunk_offs_of blkno)))"
  shows "\<exists>s'. lfc_evict rn fk blkno stack_value s = Some s' \<and> ctl_lru s' = ctl_lru s"
  unfolding lfc_evict_found [OF assms(1,2)]
  using assms(3) by (simp add: Let_def has_remaining_pages_of_def)

text \<open>
  Claim C3, at a failing input. The second chunk of \<open>two_chunks\<close> holds one page. After
  \<open>lfc_evict\<close> of that page its bitmap is zero. When the uninitialised
  \<open>has_remaining_pages\<close> reads as true, the chunk keeps its place at the tail of the
  list; it moves to the head only when the variable happens to read as false.
\<close>

theorem lfc_evict_empty_chunk_stays:
  "lfc_run [Write rel3 0 0 (page_of 3), Write rel4 0 0 (page_of 4)] (lfc_shmem_startup 2 2)
     = Some two_chunks
   \<and> ctl_lru two_chunks = [key3, key4]
   \<and> (\<exists>s'. lfc_evict rel4 0 0 True two_chunks = Some s'
         \<and> map_of (lfc_hash s') key4 = Some \<lparr>offset = 1, access_count = 0, bitmap = [0, 0, 0, 0]\<rparr>
         \<and> ctl_lru s' = [key3, key4])
   \<and> (\<exists>s'. lfc_evict rel4 0 0 False two_chunks = Some s'
         \<and> map_of (lfc_hash s') key4 = Some \<lparr>offset = 1, access_count = 0, bitmap = [0, 0, 0, 0]\<rparr>
         \<and> ctl_lru s' = [key4, key3])"
proof -
  have nz: "lfc_size_limit two_chunks \<noteq> 0"
    by (simp add: two_chunks_def)
  have e: "map_of (lfc_hash two_chunks) (chunk_tag rel4 0 0)
             = Some \<lparr>offset = 1, access_count = 0, bitmap = [1, 0, 0, 0]\<rparr>"
    by (simp add: two_chunks_def chunk_tag_0)
  have lru: "ctl_lru two_chunks = [key3, key4]"
    by (simp add: two_chunks_def)
  have stays: "\<exists>s'. lfc_evict rel4 0 0 True two_chunks = Some s'
         \<and> map_of (lfc_hash s') key4 = Some \<lparr>offset = 1, access_count = 0, bitmap = [0, 0, 0, 0]\<rparr>
         \<and> ctl_lru s' = [key3, key4]"
    unfolding lfc_evict_found [OF nz e]
    by (simp add: two_chunks_def chunk_tag_0 chunk_offs_of_0 bitmap_clear_0 Let_def
        has_remaining_pages_of_def BLOCKS_PER_CHUNK_def update_conv')
  have moves: "\<exists>s'. lfc_evict rel4 0 0 False two_chunks = Some s'
         \<and> map_of (lfc_hash s') key4 = Some \<lparr>offset = 1, access_count = 0, bitmap = [0, 0, 0, 0]\<rparr>
         \<and> ctl_lru s' = [key4, key3]"
    unfolding lfc_evict_found [OF nz e]
    by (simp add: two_chunks_def chunk_tag_0 chunk_offs_of_0 bitmap_clear_0 Let_def
        has_remaining_pages_of_def BLOCKS_PER_CHUNK_def update_conv')
  from two_chunks_reached lru stays moves show ?thesis
    by blast
qed

subsection \<open>Shrinking to a new limit\<close>

text \<open>
  What the hook does do. Outside a regular backend it returns at once. In a regular
  backend it runs the loop, which ends with \<open>used\<close> at most the new limit or with every
  remaining chunk pinned, and which leaves every pinned entry alone. No other operation
  of a run decreases \<open>used\<close>.
\<close>

lemma lfc_change_limit_hook_guarded:
  "\<not> lfc_ctl_set p \<or> \<not> UsedShmemSegAddr p \<or> IsParallelWorker p \<Longrightarrow>
     lfc_change_limit_hook p newval s = s"
  by (auto simp: lfc_change_limit_hook_def)

lemma lfc_change_limit_hook_shrink:
  "lfc_ctl_set p \<Longrightarrow> UsedShmemSegAddr p \<Longrightarrow> \<not> IsParallelWorker p \<Longrightarrow>
     lfc_change_limit_hook p newval s = lfc_shrink (SIZE_MB_TO_CHUNKS newval) s"
  by (simp add: lfc_change_limit_hook_def)

lemma lfc_inv_lru_empty_pinned:
  assumes inv: "lfc_inv s" and lru: "ctl_lru s = []"
  shows "lfc_all_pinned s"
proof -
  from inv have d: "distinct (map fst (lfc_hash s))"
    by (simp add: lfc_inv_iff)
  from inv lru have "\<forall>k e. map_of (lfc_hash s) k = Some e \<longrightarrow> access_count e \<noteq> 0"
    by (auto simp: lfc_inv_iff)
  then show ?thesis
    by (simp add: lfc_all_pinned_def list_all_map_of [OF d])
qed

lemma lfc_change_limit_hook_target:
  assumes inv: "lfc_inv s"
    and g: "lfc_ctl_set p" "UsedShmemSegAddr p" "\<not> IsParallelWorker p"
  shows "ctl_used (lfc_change_limit_hook p newval s) \<le> SIZE_MB_TO_CHUNKS newval
         \<or> lfc_all_pinned (lfc_change_limit_hook p newval s)"
proof -
  let ?s' = "lfc_shrink (SIZE_MB_TO_CHUNKS newval) s"
  have inv': "lfc_inv ?s'"
    using inv by (rule lfc_shrink_inv)
  from lfc_shrink_exit [OF inv, of "SIZE_MB_TO_CHUNKS newval"]
  have "ctl_used ?s' \<le> SIZE_MB_TO_CHUNKS newval \<or> lfc_all_pinned ?s'"
    using lfc_inv_lru_empty_pinned [OF inv'] by (auto simp: not_less)
  then show ?thesis
    using g by (simp add: lfc_change_limit_hook_shrink)
qed

lemma lfc_change_limit_hook_keeps_pinned:
  assumes inv: "lfc_inv s" and e: "map_of (lfc_hash s) k = Some e" and pinned: "access_count e \<noteq> 0"
  shows "map_of (lfc_hash (lfc_change_limit_hook p newval s)) k = Some e"
proof -
  have "k \<notin> set (ctl_lru s)"
    using inv e pinned by (rule lfc_inv_pinned_not_linked)
  from lfc_shrink_keeps [OF inv this] e show ?thesis
    by (simp add: lfc_change_limit_hook_def Let_def)
qed

lemma lfc_step_used:
  assumes inv: "lfc_seq_inv s" and other: "\<And>p newval. op \<noteq> SetSizeLimit p newval"
  shows "\<exists>s'. lfc_step op s = Some s' \<and> ctl_used s \<le> ctl_used s'"
proof (cases op)
  case (Contains rn fk blkno)
  then show ?thesis by simp
next
  case (Read rn fk blkno buffer)
  have "\<exists>r b s'. lfc_read rn fk blkno buffer s = Some (r, b, s') \<and> ctl_used s' = ctl_used s"
  proof (cases "lfc_size_limit s \<noteq> 0 \<and>
      (\<exists>e. map_of (lfc_hash s) (chunk_tag rn fk blkno) = Some e
           \<and> bitmap_test (bitmap e) (chunk_offs_of blkno))")
    case False
    then have "lfc_read rn fk blkno buffer s = Some (False, buffer, s)"
      by (auto simp: lfc_read_def Let_def split: option.splits)
    then show ?thesis by blast
  next
    case True
    then obtain e where nz: "lfc_size_limit s \<noteq> 0"
      and e: "map_of (lfc_hash s) (chunk_tag rn fk blkno) = Some e"
      and bit: "bitmap_test (bitmap e) (chunk_offs_of blkno)"
      by blast
    from inv e have ac: "access_count e = 0" and mem: "chunk_tag rn fk blkno \<in> set (ctl_lru s)"
      by (auto simp: lfc_seq_inv_iff)
    have "ctl_used (s\<lparr>lfc_hash := AList.update (chunk_tag rn fk blkno) (e\<lparr>access_count := 0\<rparr>) (lfc_hash s),
               ctl_lru := remove1 (chunk_tag rn fk blkno) (ctl_lru s) @ [chunk_tag rn fk blkno]\<rparr>)
          = ctl_used s"
      by simp
    with lfc_read_found [OF nz e bit ac mem, of buffer] show ?thesis
      by blast
  qed
  then show ?thesis using Read by auto
next
  case (Write rn fk blkno buffer)
  then show ?thesis using lfc_write_seq_inv [OF inv, of rn fk blkno buffer] by auto
next
  case (Evict rn fk blkno stack_value)
  then show ?thesis using lfc_evict_seq_inv [OF inv, of rn fk blkno stack_value] by auto
next
  case (SetSizeLimit q n)
  with other show ?thesis by blast
qed

text \<open>The address that \<open>madvise\<close> gets for a chunk, and the pages it clears.\<close>

lemma CHUNK_SIZE_eq: "CHUNK_SIZE = 1048576"
  by (simp add: CHUNK_SIZE_def BLOCKS_PER_CHUNK_def BLCKSZ_def)

lemma punch_address_small:
  assumes "unat off < 4096"
  shows "punch_address off = unat off * CHUNK_SIZE"
proof -
  have "unat off * 1048576 < 4096 * 1048576"
    using assms by simp
  then have "unat off * unat (1048576 :: uint32) < 2 ^ LENGTH(32)"
    by simp
  then have "unat (off * 1048576) = unat off * unat (1048576 :: uint32)"
    by (simp add: unat_mult_lem [THEN iffD1])
  then show ?thesis
    by (simp add: punch_address_def CHUNK_SIZE_eq)
qed

lemma punch_address_4096: "punch_address 4096 = 0"
  by (simp add: punch_address_def CHUNK_SIZE_eq)

lemma madvise_remove_inside:
  "addr \<le> slot * BLCKSZ \<Longrightarrow> (slot + 1) * BLCKSZ \<le> addr + len \<Longrightarrow>
     madvise_remove addr len sl slot = replicate BLCKSZ 0"
  by (simp add: madvise_remove_def)

lemma madvise_remove_outside:
  "\<not> (addr \<le> slot * BLCKSZ \<and> (slot + 1) * BLCKSZ \<le> addr + len) \<Longrightarrow>
     madvise_remove addr len sl slot = sl slot"
  by (auto simp: madvise_remove_def)

lemma page_of_3_nonzero: "page_of 3 \<noteq> replicate BLCKSZ 0"
proof
  assume "page_of 3 = replicate BLCKSZ 0"
  then have "page_of 3 ! 0 = replicate BLCKSZ (0 :: 8 word) ! 0"
    by simp
  moreover have "0 < BLCKSZ"
    by (simp add: BLCKSZ_def)
  ultimately show False
    by (simp add: page_of_def)
qed

lemma punch_address_mod: "punch_address off = unat off * CHUNK_SIZE mod 2 ^ 32"
  by (simp add: punch_address_def CHUNK_SIZE_eq unat_word_ariths)

lemma punch_address_wraps:
  assumes "4096 \<le> unat off"
  shows "punch_address off \<noteq> unat off * CHUNK_SIZE"
proof -
  have "punch_address off < 2 ^ 32"
    unfolding punch_address_mod by simp
  moreover have "(2::nat) ^ 32 \<le> unat off * CHUNK_SIZE"
    using assms by (simp add: CHUNK_SIZE_eq)
  ultimately show ?thesis
    by simp
qed

text \<open>
  Claim C4, where the code departs from it. In a regular backend, with \<open>used\<close> above the
  new limit and the entry \<open>v\<close> at the head of the list, the first round of the hook pops
  the head, removes it from the hash table and decrements \<open>used\<close>, as the claim says;
  but the range it hands to \<open>madvise\<close> starts at \<open>offset * CHUNK_SIZE\<close> modulo \<open>2^32\<close>,
  and the pages of that range are the ones that read as zero afterwards. The chunk of
  \<open>v\<close> starts at byte \<open>offset * CHUNK_SIZE\<close> of the slab, so from offset 4096 on the hook
  punches another chunk's range.
\<close>

theorem lfc_change_limit_hook_punch_wraps:
  assumes guard: "lfc_ctl_set p" "UsedShmemSegAddr p" "\<not> IsParallelWorker p"
    and lt: "SIZE_MB_TO_CHUNKS newval < ctl_used s"
    and lru: "ctl_lru s = victim # rest"
    and v: "map_of (lfc_hash s) victim = Some v"
  shows "lfc_change_limit_hook p newval s =
           lfc_change_limit_hook p newval
             (s\<lparr>ctl_lru := rest,
                punched := punched s @ [(unat (offset v) * CHUNK_SIZE mod 2 ^ 32, CHUNK_SIZE)],
                slab := madvise_remove (unat (offset v) * CHUNK_SIZE mod 2 ^ 32) CHUNK_SIZE (slab s),
                lfc_hash := AList.delete victim (lfc_hash s),
                ctl_used := ctl_used s - 1\<rparr>)
         \<and> (4096 \<le> unat (offset v) \<longrightarrow>
               unat (offset v) * CHUNK_SIZE mod 2 ^ 32 \<noteq> unat (offset v) * CHUNK_SIZE)"
proof
  show "lfc_change_limit_hook p newval s =
           lfc_change_limit_hook p newval
             (s\<lparr>ctl_lru := rest,
                punched := punched s @ [(unat (offset v) * CHUNK_SIZE mod 2 ^ 32, CHUNK_SIZE)],
                slab := madvise_remove (unat (offset v) * CHUNK_SIZE mod 2 ^ 32) CHUNK_SIZE (slab s),
                lfc_hash := AList.delete victim (lfc_hash s),
                ctl_used := ctl_used s - 1\<rparr>)"
    using guard lfc_shrink_round [OF lt lru v]
    by (simp add: lfc_change_limit_hook_shrink punch_address_mod)
  show "4096 \<le> unat (offset v) \<longrightarrow>
          unat (offset v) * CHUNK_SIZE mod 2 ^ 32 \<noteq> unat (offset v) * CHUNK_SIZE"
    using punch_address_wraps [of "offset v"] by (simp add: punch_address_mod)
qed

text \<open>
  A failing input. \<open>far_chunk\<close> arises in a cache of 8192 megabytes when 4097 chunks are
  written, the first one is read again, and the limit is lowered to two megabytes and
  raised again: the chunk of \<open>rel3\<close> at offset 0 and the chunk of \<open>rel4\<close> at offset 4096
  are left, the state satisfies \<open>lfc_seq_inv\<close> (\<open>lfc_seq_inv_far_chunk\<close>), and the page
  of \<open>rel3\<close> reads back as written. Lowering the limit to one megabyte pops the chunk of
  \<open>rel4\<close>. Its range begins at byte \<open>4096 * CHUNK_SIZE\<close> of the slab, but the product in
  32 bits is 0, so \<open>madvise\<close> is called on the first megabyte of the slab: the chunk of
  \<open>rel3\<close> stays in the hash table with its page marked present, its page is zero bytes
  from then on, and the range of the popped chunk keeps its content.
\<close>

theorem lfc_change_limit_hook_punch_wraps_witness:
  "lfc_ctl_set backend \<and> UsedShmemSegAddr backend \<and> \<not> IsParallelWorker backend
   \<and> SIZE_MB_TO_CHUNKS 1 < ctl_used far_chunk
   \<and> ctl_lru far_chunk = [key4, key3]
   \<and> map_of (lfc_hash far_chunk) key4 = Some \<lparr>offset = 4096, access_count = 0, bitmap = [1, 0, 0, 0]\<rparr>
   \<and> map_of (lfc_hash far_chunk) key3 = Some \<lparr>offset = 0, access_count = 0, bitmap = [1, 0, 0, 0]\<rparr>
   \<and> lfc_read rel3 0 0 [] far_chunk = Some (True, page_of 3, far_chunk)
   \<and> punched (lfc_change_limit_hook backend 1 far_chunk) = [(0, CHUNK_SIZE)]
   \<and> 4096 * CHUNK_SIZE \<noteq> 0
   \<and> ctl_used (lfc_change_limit_hook backend 1 far_chunk) = 1
   \<and> map_of (lfc_hash (lfc_change_limit_hook backend 1 far_chunk)) key4 = None
   \<and> map_of (lfc_hash (lfc_change_limit_hook backend 1 far_chunk)) key3
       = Some \<lparr>offset = 0, access_count = 0, bitmap = [1, 0, 0, 0]\<rparr>
   \<and> slab (lfc_change_limit_hook backend 1 far_chunk) 0 = replicate BLCKSZ 0
   \<and> slab (lfc_change_limit_hook backend 1 far_chunk) (4096 * BLOCKS_PER_CHUNK) = page_of 4
   \<and> (\<exists>s'. lfc_read rel3 0 0 [] (lfc_change_limit_hook backend 1 far_chunk)
             = Some (True, replicate BLCKSZ 0, s'))
   \<and> page_of 3 \<noteq> replicate BLCKSZ 0"
proof -
  let ?e3 = "\<lparr>offset = 0, access_count = 0, bitmap = [1, 0, 0, 0]\<rparr>"
  let ?e4 = "\<lparr>offset = 4096, access_count = 0, bitmap = [1, 0, 0, 0]\<rparr>"
  let ?popped = "far_chunk\<lparr>ctl_lru := [key3],
        punched := punched far_chunk @ [(0, CHUNK_SIZE)],
        slab := madvise_remove 0 CHUNK_SIZE (slab far_chunk),
        lfc_hash := AList.delete key4 (lfc_hash far_chunk),
        ctl_used := ctl_used far_chunk - 1\<rparr>"
  let ?s' = "lfc_change_limit_hook backend 1 far_chunk"
  have g: "lfc_ctl_set backend" "UsedShmemSegAddr backend" "\<not> IsParallelWorker backend"
    by (simp_all add: backend_def)
  have lru: "ctl_lru far_chunk = [key4, key3]"
    by (simp add: far_chunk_def)
  have e4: "map_of (lfc_hash far_chunk) key4 = Some ?e4"
    by (simp add: far_chunk_def)
  have e3: "map_of (lfc_hash far_chunk) key3 = Some ?e3"
    by (simp add: far_chunk_def)
  have nz: "lfc_size_limit far_chunk \<noteq> 0"
    by (simp add: far_chunk_def)
  have e3': "map_of (lfc_hash far_chunk) (chunk_tag rel3 0 0) = Some ?e3"
    by (simp add: far_chunk_def chunk_tag_0)
  have mem: "chunk_tag rel3 0 0 \<in> set (ctl_lru far_chunk)"
    by (simp add: far_chunk_def chunk_tag_0)
  have bit: "bitmap_test (bitmap ?e3) (chunk_offs_of 0)"
    by (simp add: chunk_offs_of_0 bitmap_test_0)
  have before: "lfc_read rel3 0 0 [] far_chunk = Some (True, page_of 3, far_chunk)"
    unfolding lfc_read_found [OF nz e3' bit _ mem, simplified]
    by (simp add: far_chunk_def chunk_tag_0 chunk_offs_of_0 page_slot_def)
  have lt: "SIZE_MB_TO_CHUNKS 1 < ctl_used far_chunk"
    by (simp add: far_chunk_def SIZE_MB_TO_CHUNKS_1 word_less_nat_alt)
  have stop: "\<not> (SIZE_MB_TO_CHUNKS 1 < ctl_used ?popped \<and> ctl_lru ?popped \<noteq> [])"
    by (simp add: far_chunk_def SIZE_MB_TO_CHUNKS_1)
  have wrap: "unat (offset ?e4) * CHUNK_SIZE mod 2 ^ 32 = 0"
    by (simp add: CHUNK_SIZE_eq)
  from lfc_change_limit_hook_punch_wraps [OF g lt lru e4, THEN conjunct1]
  have round: "?s' = lfc_change_limit_hook backend 1 ?popped"
    unfolding wrap by simp
  have "lfc_change_limit_hook backend 1 ?popped = ?popped"
    using g lfc_shrink_stop [OF stop] by (simp add: lfc_change_limit_hook_shrink)
  with round have hook: "?s' = ?popped"
    by simp
  have p: "punched ?s' = [(0, CHUNK_SIZE)]"
    unfolding hook by (simp add: far_chunk_def)
  have far: "4096 * CHUNK_SIZE \<noteq> 0"
    by (simp add: CHUNK_SIZE_eq)
  have used: "ctl_used ?s' = 1"
    unfolding hook by (simp add: far_chunk_def)
  have gone: "map_of (lfc_hash ?s') key4 = None"
    unfolding hook by (simp add: far_chunk_def)
  have kept: "map_of (lfc_hash ?s') key3 = Some ?e3"
    unfolding hook by (simp add: far_chunk_def)
  have in0: "(0::nat) \<le> 0 * BLCKSZ" "(0 + 1) * BLCKSZ \<le> 0 + CHUNK_SIZE"
    by (simp_all add: CHUNK_SIZE_def BLOCKS_PER_CHUNK_def)
  have out: "\<not> ((0::nat) \<le> 4096 * BLOCKS_PER_CHUNK * BLCKSZ
      \<and> (4096 * BLOCKS_PER_CHUNK + 1) * BLCKSZ \<le> 0 + CHUNK_SIZE)"
    by (simp add: CHUNK_SIZE_def BLOCKS_PER_CHUNK_def BLCKSZ_def)
  have zero: "slab ?s' 0 = replicate BLCKSZ 0"
    unfolding hook by (simp add: madvise_remove_inside [OF in0])
  have own: "slab ?s' (4096 * BLOCKS_PER_CHUNK) = page_of 4"
    unfolding hook
    by (simp add: madvise_remove_outside [OF out])
       (simp add: far_chunk_def BLOCKS_PER_CHUNK_def)
  have nz': "lfc_size_limit ?s' \<noteq> 0"
    unfolding hook by (simp add: far_chunk_def)
  have e3'': "map_of (lfc_hash ?s') (chunk_tag rel3 0 0) = Some ?e3"
    using kept by (simp add: chunk_tag_0)
  have mem': "chunk_tag rel3 0 0 \<in> set (ctl_lru ?s')"
    unfolding hook by (simp add: chunk_tag_0)
  have after: "\<exists>s''. lfc_read rel3 0 0 [] ?s' = Some (True, replicate BLCKSZ 0, s'')"
    unfolding lfc_read_found [OF nz' e3'' bit _ mem', simplified]
    using zero by (simp add: chunk_offs_of_0 page_slot_def)
  from g lt lru e4 e3 before p far used gone kept zero own after page_of_3_nonzero
  show ?thesis
    by blast
qed

subsection \<open>Pins and the list\<close>

text \<open>
  The critical sections one by one, in any state that satisfies \<open>lfc_inv\<close>, pinned
  entries included. The pin (\<open>access_count++\<close>) unlinks the entry when the count was 0
  and leaves the list alone otherwise; the unpin (\<open>--access_count\<close>) links the entry at
  the tail when the count was 1 and leaves the list alone otherwise; both keep the
  invariant as long as the counter does not wrap around. So do the first and the second
  critical section of \<open>lfc_write\<close>, the shrink loop (\<open>lfc_shrink_inv\<close> above), and
  \<open>lfc_evict\<close> whenever it is defined.
\<close>

lemma lfc_pin_inv:
  assumes inv: "lfc_inv s" and e: "map_of (lfc_hash s) tag = Some e"
    and nowrap: "access_count e + 1 \<noteq> 0"
  shows "\<exists>s'. lfc_pin tag e s = Some s' \<and> lfc_inv s'
              \<and> map_of (lfc_hash s') tag = Some (e\<lparr>access_count := access_count e + 1\<rparr>)
              \<and> ctl_lru s' = (if access_count e = 0 then remove1 tag (ctl_lru s) else ctl_lru s)"
proof (cases "access_count e = 0")
  case True
  with inv e have mem: "tag \<in> set (ctl_lru s)"
    by (auto simp: lfc_inv_iff)
  let ?s' = "s\<lparr>lfc_hash := AList.update tag (e\<lparr>access_count := 1\<rparr>) (lfc_hash s),
               ctl_lru := remove1 tag (ctl_lru s)\<rparr>"
  have "lfc_inv ?s'"
    using inv e True mem
    by (auto simp: lfc_inv_iff distinct_update update_conv' set_remove1_eq)
  moreover have "map_of (lfc_hash ?s') tag = Some (e\<lparr>access_count := access_count e + 1\<rparr>)"
    using True by (simp add: update_conv')
  ultimately show ?thesis
    using True by (simp add: lfc_pin_linked [OF True mem])
next
  case False
  with inv e have notin: "tag \<notin> set (ctl_lru s)"
    by (auto simp: lfc_inv_iff)
  let ?s' = "s\<lparr>lfc_hash := AList.update tag (e\<lparr>access_count := access_count e + 1\<rparr>) (lfc_hash s)\<rparr>"
  have "lfc_inv ?s'"
    using inv e False nowrap notin
    by (auto simp: lfc_inv_iff distinct_update update_conv')
  moreover have "map_of (lfc_hash ?s') tag = Some (e\<lparr>access_count := access_count e + 1\<rparr>)"
    by (simp add: update_conv')
  ultimately show ?thesis
    using False by (simp add: lfc_pin_pinned [OF False])
qed

lemma lfc_unpin_inv:
  assumes inv: "lfc_inv s" and e: "map_of (lfc_hash s) tag = Some e"
    and pinned: "access_count e \<noteq> 0"
  shows "lfc_inv (lfc_unpin tag s)
         \<and> map_of (lfc_hash (lfc_unpin tag s)) tag = Some (e\<lparr>access_count := access_count e - 1\<rparr>)
         \<and> ctl_lru (lfc_unpin tag s) = (if access_count e = 1 then ctl_lru s @ [tag] else ctl_lru s)"
proof -
  from inv e pinned have notin: "tag \<notin> set (ctl_lru s)"
    by (auto simp: lfc_inv_iff)
  have entry: "map_of (lfc_hash (lfc_unpin tag s)) tag = Some (e\<lparr>access_count := access_count e - 1\<rparr>)"
    using e by (simp add: lfc_unpin_def Let_def update_conv')
  have lru: "ctl_lru (lfc_unpin tag s) = (if access_count e = 1 then ctl_lru s @ [tag] else ctl_lru s)"
    using e by (simp add: lfc_unpin_def Let_def dlist_push_tail_def)
  have "lfc_inv (lfc_unpin tag s)"
  proof (cases "access_count e = 1")
    case True
    then show ?thesis
      using inv e notin
      by (auto simp: lfc_inv_iff lfc_unpin_def Let_def dlist_push_tail_def distinct_update update_conv')
  next
    case False
    then have "access_count e - 1 \<noteq> 0"
      by simp
    then show ?thesis
      using inv e notin False
      by (auto simp: lfc_inv_iff lfc_unpin_def Let_def distinct_update update_conv')
  qed
  with entry lru show ?thesis
    by blast
qed

lemma lfc_write_enter_inv:
  assumes inv: "lfc_inv s"
    and nowrap: "\<And>e. map_of (lfc_hash s) tag = Some e \<Longrightarrow> access_count e + 1 \<noteq> 0"
  shows "\<exists>s'. lfc_write_enter tag s = Some s' \<and> lfc_inv s'
              \<and> (\<exists>e. map_of (lfc_hash s') tag = Some e \<and> access_count e \<noteq> 0)"
proof (cases "map_of (lfc_hash s) tag")
  case (Some e)
  from lfc_pin_inv [OF inv Some nowrap [OF Some]] nowrap [OF Some] show ?thesis
    unfolding lfc_write_enter_found [OF Some] by auto
next
  case None
  have notin: "tag \<notin> set (ctl_lru s)"
    using inv None by (auto simp: lfc_inv_iff)
  show ?thesis
  proof (cases "SIZE_MB_TO_CHUNKS (lfc_size_limit s) \<le> ctl_used s \<and> ctl_lru s \<noteq> []")
    case True
    then obtain victim rest where lru: "ctl_lru s = victim # rest"
      by (cases "ctl_lru s") auto
    from lfc_inv_head [OF inv lru] obtain v where v: "map_of (lfc_hash s) victim = Some v"
      by blast
    from True have full: "SIZE_MB_TO_CHUNKS (lfc_size_limit s) \<le> ctl_used s" by simp
    have ne: "tag \<noteq> victim" using None v by auto
    from inv lru have d: "victim \<notin> set rest" "distinct rest"
      by (auto simp: lfc_inv_iff)
    from inv lru have iff: "\<And>k. k \<in> set rest \<or> k = victim \<longleftrightarrow>
        (\<exists>e. map_of (lfc_hash s) k = Some e \<and> access_count e = 0)"
      by (auto simp: lfc_inv_iff)
    have tag_rest: "tag \<notin> set rest"
      using notin lru by simp
    show ?thesis
      unfolding lfc_write_enter_victim [OF None full lru v]
      using inv d iff ne tag_rest
      by (auto simp: lfc_inv_iff distinct_update distinct_delete update_conv' delete_conv'
          new_entry_eq)
  next
    case False
    then have fresh: "\<not> SIZE_MB_TO_CHUNKS (lfc_size_limit s) \<le> ctl_used s \<or> ctl_lru s = []"
      by simp
    show ?thesis
      unfolding lfc_write_enter_fresh [OF None fresh]
      using inv notin
      by (auto simp: lfc_inv_iff distinct_update update_conv' new_entry_eq)
  qed
qed

lemma lfc_write_copy_inv: "lfc_inv (lfc_write_copy tag co buffer s) \<longleftrightarrow> lfc_inv s"
  by (simp add: lfc_write_copy_def lfc_inv_def split: option.splits)

lemma lfc_write_finish_inv:
  assumes inv: "lfc_inv s" and e: "map_of (lfc_hash s) tag = Some e"
    and pinned: "access_count e \<noteq> 0"
  shows "lfc_inv (lfc_write_finish tag co s)"
proof -
  let ?s1 = "lfc_unpin tag s"
  let ?e1 = "e\<lparr>access_count := access_count e - 1\<rparr>"
  from lfc_unpin_inv [OF inv e pinned]
  have inv1: "lfc_inv ?s1" and e1: "map_of (lfc_hash ?s1) tag = Some ?e1"
    by simp_all
  have "lfc_inv (?s1\<lparr>lfc_hash := AList.update tag (?e1\<lparr>bitmap := bitmap_set (bitmap ?e1) co\<rparr>)
                        (lfc_hash ?s1)\<rparr>)"
    using inv1 e1 by (auto simp: lfc_inv_iff distinct_update update_conv')
  then show ?thesis
    using inv1 e1 by (simp add: lfc_write_finish_def Let_def)
qed

lemma lfc_evict_defined_inv:
  assumes inv: "lfc_inv s" and ev: "lfc_evict rn fk blkno stack_value s = Some s'"
  shows "lfc_inv s'"
proof (cases "lfc_size_limit s = 0")
  case True
  with ev inv show ?thesis by (simp add: lfc_evict_def)
next
  case nz: False
  let ?tag = "chunk_tag rn fk blkno"
  show ?thesis
  proof (cases "map_of (lfc_hash s) ?tag")
    case None
    with ev inv nz show ?thesis by (simp add: lfc_evict_def)
  next
    case (Some e)
    let ?bm = "bitmap_clear (bitmap e) (chunk_offs_of blkno)"
    let ?s1 = "s\<lparr>lfc_hash := AList.update ?tag (e\<lparr>bitmap := ?bm\<rparr>) (lfc_hash s)\<rparr>"
    have inv1: "lfc_inv ?s1"
      using inv Some by (auto simp: lfc_inv_iff distinct_update update_conv')
    from ev have "s' = ?s1 \<or>
        (?tag \<in> set (ctl_lru s) \<and> s' = ?s1\<lparr>ctl_lru := ?tag # remove1 ?tag (ctl_lru s)\<rparr>)"
      unfolding lfc_evict_found [OF nz Some] by (auto simp: Let_def split: if_splits)
    then show ?thesis
    proof
      assume "s' = ?s1"
      with inv1 show ?thesis by simp
    next
      assume a: "?tag \<in> set (ctl_lru s) \<and> s' = ?s1\<lparr>ctl_lru := ?tag # remove1 ?tag (ctl_lru s)\<rparr>"
      then have set: "insert ?tag (set (ctl_lru s)) = set (ctl_lru s)"
        by auto
      from a inv1 set show ?thesis
        by (auto simp: lfc_inv_iff)
    qed
  qed
qed

text \<open>
  \<open>lfc_evict\<close> is undefined exactly when it finds the bitmap of a pinned chunk empty
  (and \<open>has_remaining_pages\<close> reads as false): the pinned entry is not in the list, and
  \<open>dlist_delete\<close> is called on it all the same.
\<close>

lemma lfc_evict_undefined_iff:
  assumes inv: "lfc_inv s" and nz: "lfc_size_limit s \<noteq> 0"
    and e: "map_of (lfc_hash s) (chunk_tag rn fk blkno) = Some e"
  shows "lfc_evict rn fk blkno stack_value s = None \<longleftrightarrow>
           access_count e \<noteq> 0
           \<and> bitmap_clear (bitmap e) (chunk_offs_of blkno) ! (drop_bit 5 (chunk_offs_of blkno)) = 0
           \<and> \<not> has_remaining_pages_of (bitmap_clear (bitmap e) (chunk_offs_of blkno)) stack_value"
  unfolding lfc_evict_found [OF nz e]
  using lfc_inv_linked_iff [OF inv e] by (auto simp: Let_def)

text \<open>
  Claim C5, at a failing input. From the initial state two writes fill a cache of two
  chunks (\<open>two_chunks\<close>). A backend starts \<open>lfc_write\<close> of block 0 of \<open>rel5\<close>: after the
  first critical section the new chunk is in the hash table with \<open>access_count = 1\<close> and
  an empty bitmap, and it is not in the list, while the unpinned chunk of \<open>rel4\<close> is: the
  state \<open>pinned_chunk\<close> satisfies the invariant (\<open>lfc_inv_pinned_chunk\<close>).
  Before the write reaches its second critical section, another backend calls
  \<open>lfc_evict\<close> for block 0 of \<open>rel5\<close>. It finds the entry, clears a bit of the empty
  bitmap, finds every word zero, and, with \<open>has_remaining_pages\<close> false, calls
  \<open>dlist_delete\<close> on the node of the pinned entry, which is not in the list. The code has
  no defined behaviour from there: no state follows in which pinned entries are exactly
  the ones outside the list.
\<close>

theorem lfc_evict_unlinks_pinned_chunk:
  "lfc_run [Write rel3 0 0 (page_of 3), Write rel4 0 0 (page_of 4)] (lfc_shmem_startup 2 2)
     = Some two_chunks
   \<and> lfc_write_enter key5 two_chunks = Some pinned_chunk
   \<and> map_of (lfc_hash pinned_chunk) key4 = Some \<lparr>offset = 1, access_count = 0, bitmap = [1, 0, 0, 0]\<rparr>
   \<and> key4 \<in> set (ctl_lru pinned_chunk)
   \<and> map_of (lfc_hash pinned_chunk) key5 = Some \<lparr>offset = 0, access_count = 1, bitmap = [0, 0, 0, 0]\<rparr>
   \<and> key5 \<notin> set (ctl_lru pinned_chunk)
   \<and> dlist_delete key5 (ctl_lru pinned_chunk) = None
   \<and> lfc_evict rel5 0 0 False pinned_chunk = None"
proof -
  let ?e5 = "\<lparr>offset = 0, access_count = 1, bitmap = [0, 0, 0, 0]\<rparr>"
  have e: "map_of (lfc_hash pinned_chunk) key5 = Some ?e5"
    by (simp add: pinned_chunk_def)
  have notin: "key5 \<notin> set (ctl_lru pinned_chunk)"
    by (simp add: pinned_chunk_def)
  have del: "dlist_delete key5 (ctl_lru pinned_chunk) = None"
    using notin by (rule dlist_delete_unlinked)
  have nz: "lfc_size_limit pinned_chunk \<noteq> 0"
    by (simp add: pinned_chunk_def)
  have e': "map_of (lfc_hash pinned_chunk) (chunk_tag rel5 0 0) = Some ?e5"
    using e by (simp add: chunk_tag_0)
  have "lfc_evict rel5 0 0 False pinned_chunk = None"
    unfolding lfc_evict_undefined_iff [OF lfc_inv_pinned_chunk nz e']
    by (simp add: chunk_offs_of_0 bitmap_clear_zero has_remaining_pages_of_def BLOCKS_PER_CHUNK_def)
  moreover have "map_of (lfc_hash pinned_chunk) key4
      = Some \<lparr>offset = 1, access_count = 0, bitmap = [1, 0, 0, 0]\<rparr>"
    by (simp add: pinned_chunk_def)
  moreover have "key4 \<in> set (ctl_lru pinned_chunk)"
    by (simp add: pinned_chunk_def)
  ultimately show ?thesis
    using two_chunks_reached pinned_chunk_reached e notin del by blast
qed

subsection \<open>Accounting\<close>

lemma lfc_used_counts_entries:
  "\<exists>s. lfc_run ops (lfc_shmem_startup max_size limit) = Some s
       \<and> unat (ctl_used s) = length (lfc_hash s)"
  using lfc_reachable_seq_inv [of ops max_size limit] by (auto simp: lfc_seq_inv_def)

lemma set_size_limit_no_shrink:
  assumes "0 \<le> n" and "n \<le> 2147483647" and "n \<le> lfc_max_size s"
    and "\<not> (SIZE_MB_TO_CHUNKS n < ctl_used s \<and> ctl_lru s \<noteq> [])"
  shows "set_size_limit p n s = s\<lparr>lfc_size_limit := n\<rparr>"
proof -
  have "lfc_change_limit_hook p n s = s"
    using lfc_shrink_stop [OF assms(4)] by (simp add: lfc_change_limit_hook_def)
  then show ?thesis
    using assms(1-3) by (simp add: set_size_limit_def lfc_check_limit_hook_def)
qed

lemma two_chunks_lowered:
  "set_size_limit backend 1 two_chunks =
     \<lparr>lfc_max_size = 2, lfc_size_limit = 1,
      lfc_hash = [(key4, \<lparr>offset = 1, access_count = 0, bitmap = [1, 0, 0, 0]\<rparr>)],
      ctl_size = 2, ctl_used = 1, ctl_lru = [key4],
      slab = madvise_remove 0 CHUNK_SIZE ((\<lambda>_. replicate BLCKSZ 0)(0 := page_of 3, 128 := page_of 4)),
      punched = [(0, CHUNK_SIZE)]\<rparr>"
proof -
  let ?popped = "two_chunks\<lparr>ctl_lru := [key4],
        punched := punched two_chunks @ [(punch_address 0, CHUNK_SIZE)],
        slab := madvise_remove (punch_address 0) CHUNK_SIZE (slab two_chunks),
        lfc_hash := AList.delete key3 (lfc_hash two_chunks),
        ctl_used := ctl_used two_chunks - 1\<rparr>"
  have lt: "SIZE_MB_TO_CHUNKS 1 < ctl_used two_chunks"
    by (simp add: two_chunks_def SIZE_MB_TO_CHUNKS_1 word_less_nat_alt)
  have lru: "ctl_lru two_chunks = key3 # [key4]"
    by (simp add: two_chunks_def)
  have v: "map_of (lfc_hash two_chunks) key3 = Some \<lparr>offset = 0, access_count = 0, bitmap = [1, 0, 0, 0]\<rparr>"
    by (simp add: two_chunks_def)
  have stop: "\<not> (SIZE_MB_TO_CHUNKS 1 < ctl_used ?popped \<and> ctl_lru ?popped \<noteq> [])"
    by (simp add: two_chunks_def SIZE_MB_TO_CHUNKS_1)
  have round: "lfc_shrink (SIZE_MB_TO_CHUNKS 1) two_chunks = lfc_shrink (SIZE_MB_TO_CHUNKS 1) ?popped"
    using lfc_shrink_round [OF lt lru v] by simp
  have "lfc_shrink (SIZE_MB_TO_CHUNKS 1) ?popped = ?popped"
    by (rule lfc_shrink_stop [OF stop])
  with round have "lfc_change_limit_hook backend 1 two_chunks = ?popped"
    by (simp add: lfc_change_limit_hook_def backend_def)
  then show ?thesis
    by (simp add: set_size_limit_def lfc_check_limit_hook_def two_chunks_def punch_address_def)
qed

text \<open>
  Claim C6, at a failing input. The slab has two chunks. From the initial state, two
  chunks are written; lowering the limit to one megabyte removes the chunk at offset 0
  and leaves \<open>size\<close> at 2; after the limit is back at two megabytes the next new chunk
  takes the offset \<open>size\<close>, so \<open>size\<close> becomes 3 and the chunk lies at offset 2, past
  the end of the slab. \<open>used\<close> still counts the entries.
\<close>

theorem lfc_size_exceeds_capacity:
  "\<exists>s. lfc_run [Write rel3 0 0 (page_of 3), Write rel4 0 0 (page_of 4),
                SetSizeLimit backend 1, SetSizeLimit backend 2,
                Write rel5 0 0 (page_of 5)] (lfc_shmem_startup 2 2) = Some s
       \<and> capacity_chunks s = 2
       \<and> ctl_size s = 3
       \<and> ctl_used s = 2
       \<and> length (lfc_hash s) = 2
       \<and> capacity_chunks s < ctl_size s
       \<and> map_of (lfc_hash s) key5 = Some \<lparr>offset = 2, access_count = 0, bitmap = [1, 0, 0, 0]\<rparr>
       \<and> slab s (2 * BLOCKS_PER_CHUNK) = page_of 5"
proof -
  let ?low = "set_size_limit backend 1 two_chunks"
  let ?s = "?low\<lparr>lfc_size_limit := 2\<rparr>"
  have raised: "set_size_limit backend 2 ?low = ?s"
    by (rule set_size_limit_no_shrink)
       (simp_all add: two_chunks_lowered SIZE_MB_TO_CHUNKS_2 word_less_nat_alt)
  have nz: "lfc_size_limit ?s \<noteq> 0"
    by simp
  have none: "map_of (lfc_hash ?s) (chunk_tag rel5 0 0) = None"
    by (simp add: two_chunks_lowered chunk_tag_0)
  have fresh: "\<not> SIZE_MB_TO_CHUNKS (lfc_size_limit ?s) \<le> ctl_used ?s \<or> ctl_lru ?s = []"
    by (simp add: two_chunks_lowered SIZE_MB_TO_CHUNKS_2 word_le_nat_alt)
  note w = lfc_write_fresh_slot [OF nz none fresh, of "page_of 5"]
  have rest: "lfc_run [SetSizeLimit backend 1, SetSizeLimit backend 2, Write rel5 0 0 (page_of 5)]
                two_chunks
        = lfc_write rel5 0 0 (page_of 5) ?s"
    by (simp add: raised split: option.splits)
  have "lfc_run ([Write rel3 0 0 (page_of 3), Write rel4 0 0 (page_of 4)]
                 @ [SetSizeLimit backend 1, SetSizeLimit backend 2, Write rel5 0 0 (page_of 5)])
          (lfc_shmem_startup 2 2)
        = lfc_write rel5 0 0 (page_of 5) ?s"
    unfolding lfc_run_append two_chunks_reached using rest by simp
  then have run: "lfc_run [Write rel3 0 0 (page_of 3), Write rel4 0 0 (page_of 4),
                SetSizeLimit backend 1, SetSizeLimit backend 2,
                Write rel5 0 0 (page_of 5)] (lfc_shmem_startup 2 2)
        = lfc_write rel5 0 0 (page_of 5) ?s"
    by simp
  show ?thesis
    unfolding run w
    by (simp add: two_chunks_lowered capacity_chunks_def SIZE_MB_TO_CHUNKS_2 chunk_tag_0
        chunk_offs_of_0 bitmap_set_new_0 update_conv' word_less_nat_alt take_page_of
        BLOCKS_PER_CHUNK_def)
qed

section \<open>Properties of the page-store client\<close>

subsection \<open>Reading the shard map\<close>

lemma read_shard_map_Some:
  "read_shard_map reads = Some r \<Longrightarrow> r \<in> set reads \<and> consistent_read r"
  by (induction reads) (auto simp: consistent_read_def split: if_splits)

lemma read_shard_map_total:
  "list_ex consistent_read reads \<Longrightarrow> \<exists>r. read_shard_map reads = Some r"
  by (induction reads) (auto simp: consistent_read_def)

lemma read_shard_map_None:
  "\<not> list_ex consistent_read reads \<Longrightarrow> read_shard_map reads = None"
  by (induction reads) (auto simp: consistent_read_def)

lemma pageserver_disconnect_length:
  "length (page_servers (pageserver_disconnect j s)) = length (page_servers s)"
  by (simp add: pageserver_disconnect_def pageserver_disconnect_shard_def)

lemma pageserver_disconnect_conn:
  "i < length (page_servers s) \<Longrightarrow>
     conn (page_servers (pageserver_disconnect j s) ! i)
       = (if i = j then None else conn (page_servers s ! i))"
  by (simp add: pageserver_disconnect_def pageserver_disconnect_shard_def nth_list_update)

lemma disconnect_open_length:
  "length (page_servers (disconnect_open is s)) = length (page_servers s)"
  by (induction "is" arbitrary: s) (simp_all add: pageserver_disconnect_length)

lemma disconnect_open_conn:
  "i < length (page_servers s) \<Longrightarrow>
     conn (page_servers (disconnect_open is s) ! i)
       = (if i \<in> set is then None else conn (page_servers s ! i))"
proof (induction "is" arbitrary: s)
  case Nil
  then show ?case by simp
next
  case (Cons j js)
  let ?s1 = "if conn (page_servers s ! j) \<noteq> None then pageserver_disconnect j s else s"
  have len: "i < length (page_servers ?s1)"
    using Cons.prems by (simp add: pageserver_disconnect_length)
  have c: "conn (page_servers ?s1 ! i) = (if i = j then None else conn (page_servers s ! i))"
    using Cons.prems by (auto simp: pageserver_disconnect_conn)
  have "conn (page_servers (disconnect_open (j # js) s) ! i)
          = conn (page_servers (disconnect_open js ?s1) ! i)"
    by (simp only: disconnect_open.simps)
  also have "\<dots> = (if i \<in> set js then None else conn (page_servers ?s1 ! i))"
    by (rule Cons.IH [OF len])
  also have "\<dots> = (if i \<in> set js then None else if i = j then None else conn (page_servers s ! i))"
    by (simp only: c)
  also have "\<dots> = (if i \<in> set (j # js) then None else conn (page_servers s ! i))"
    by simp
  finally show ?case .
qed

lemma disconnect_open_local_counter:
  "pagestore_local_counter (disconnect_open is s) = pagestore_local_counter s"
  by (induction "is" arbitrary: s)
     (simp_all add: pageserver_disconnect_def pageserver_disconnect_shard_def)

text \<open>
  Claim C9, amended. A call of \<open>load_shard_map\<close> whose retry loop ends with the
  consistent round \<open>r\<close> and that does not raise the error for a shard number out of
  range returns; if the end counter of \<open>r\<close> differs from \<open>pagestore_local_counter\<close>, no
  connection of \<open>page_servers\<close> is open in the state it returns and the local counter
  is that end counter; if the two are equal, the state is unchanged. The loop ends as
  soon as a round is consistent. A call that asks for the connection string of a shard
  number that is not below the number of shards raises the error before the counters
  are compared: it leaves every connection and the local counter as they were.
\<close>

theorem load_shard_map_invalidates:
  assumes len: "length (page_servers s) = MAX_SHARDS"
  shows "(list_ex consistent_read reads \<longrightarrow>
            (\<exists>r. read_shard_map reads = Some r \<and> consistent_read r))
       \<and> (\<forall>r. read_shard_map reads = Some r \<longrightarrow>
            (\<not> (want_connstr \<and> num_shards_copy r \<le> shard_no) \<longrightarrow>
               (\<exists>connstr s'.
                  load_shard_map MAX_SHARDS shard_no want_connstr reads s
                    = Some (Return (connstr, num_shards_copy r) s')
                  \<and> (pagestore_local_counter s \<noteq> end_update_counter r \<longrightarrow>
                       (\<forall>i<MAX_SHARDS. conn (page_servers s' ! i) = None)
                       \<and> pagestore_local_counter s' = end_update_counter r)
                  \<and> (pagestore_local_counter s = end_update_counter r \<longrightarrow> s' = s)))
          \<and> (want_connstr \<and> num_shards_copy r \<le> shard_no \<longrightarrow>
               load_shard_map MAX_SHARDS shard_no want_connstr reads s
                 = Some (Raise (ShardOutOfRange shard_no (num_shards_copy r)) s)))"
proof (intro conjI allI impI)
  assume "list_ex consistent_read reads"
  then obtain r where "read_shard_map reads = Some r"
    using read_shard_map_total by blast
  then show "\<exists>r. read_shard_map reads = Some r \<and> consistent_read r"
    using read_shard_map_Some by blast
next
  fix r
  assume r: "read_shard_map reads = Some r"
    and ok: "\<not> (want_connstr \<and> num_shards_copy r \<le> shard_no)"
  let ?connstr = "if want_connstr \<and> shard_no < MAX_SHARDS then connstring_copy r else []"
  let ?s' = "if pagestore_local_counter s \<noteq> end_update_counter r
             then (disconnect_open [0..<MAX_SHARDS] s)\<lparr>pagestore_local_counter := end_update_counter r\<rparr>
             else s"
  have res: "load_shard_map MAX_SHARDS shard_no want_connstr reads s
               = Some (Return (?connstr, num_shards_copy r) ?s')"
    using r ok by (auto simp: load_shard_map_def Let_def)
  have closed: "pagestore_local_counter s \<noteq> end_update_counter r \<longrightarrow>
      (\<forall>i<MAX_SHARDS. conn (page_servers ?s' ! i) = None)
      \<and> pagestore_local_counter ?s' = end_update_counter r"
    using len by (simp add: disconnect_open_conn)
  have same: "pagestore_local_counter s = end_update_counter r \<longrightarrow> ?s' = s"
    by simp
  from res closed same
  show "\<exists>connstr s'.
          load_shard_map MAX_SHARDS shard_no want_connstr reads s
            = Some (Return (connstr, num_shards_copy r) s')
          \<and> (pagestore_local_counter s \<noteq> end_update_counter r \<longrightarrow>
               (\<forall>i<MAX_SHARDS. conn (page_servers s' ! i) = None)
               \<and> pagestore_local_counter s' = end_update_counter r)
          \<and> (pagestore_local_counter s = end_update_counter r \<longrightarrow> s' = s)"
    by blast
next
  fix r
  assume "read_shard_map reads = Some r" and "want_connstr \<and> num_shards_copy r \<le> shard_no"
  then show "load_shard_map MAX_SHARDS shard_no want_connstr reads s
               = Some (Raise (ShardOutOfRange shard_no (num_shards_copy r)) s)"
    by (simp add: load_shard_map_def Let_def)
qed


text \<open>
  A backend with a connection to shard 0 and a local counter of 0 reads a map whose
  counters are at 1, after a first round that the postmaster disturbed.
\<close>

theorem load_shard_map_invalidates_witness:
  "(let s = \<lparr>page_servers = [\<lparr>conn = Some ''host=a'', wes = True\<rparr>, \<lparr>conn = None, wes = False\<rparr>],
              pagestore_local_counter = 0, n_reconnect_attempts = 0, last_connect_time = 0,
              delay_us = 1000, prefetch_resets = 0, slept = [], failure_reports = []\<rparr>;
        torn = \<lparr>begin_update_counter = 1, end_update_counter = 0, num_shards_copy = 1,
                 connstring_copy = ''host=?'', begin_update_counter_after = 1,
                 end_update_counter_after = 0\<rparr>;
        r = \<lparr>begin_update_counter = 1, end_update_counter = 1, num_shards_copy = 1,
              connstring_copy = ''host=b'', begin_update_counter_after = 1,
              end_update_counter_after = 1\<rparr>
    in length (page_servers s) = 2
       \<and> list_ex consistent_read [torn, r]
       \<and> read_shard_map [torn, r] = Some r
       \<and> pagestore_local_counter s \<noteq> end_update_counter r
       \<and> load_shard_map 2 0 True [torn, r] s
           = Some (Return (''host=b'', 1)
               (s\<lparr>page_servers := [\<lparr>conn = None, wes = False\<rparr>, \<lparr>conn = None, wes = False\<rparr>],
                  pagestore_local_counter := 1, prefetch_resets := 1\<rparr>))
       \<and> (\<exists>connstr s'. load_shard_map 2 0 True [torn, r] s = Some (Return (connstr, 1) s')
              \<and> conn (page_servers s' ! 0) = None \<and> conn (page_servers s' ! 1) = None
              \<and> pagestore_local_counter s' = 1))"
proof -
  let ?s = "\<lparr>page_servers = [\<lparr>conn = Some ''host=a'', wes = True\<rparr>, \<lparr>conn = None, wes = False\<rparr>],
              pagestore_local_counter = 0, n_reconnect_attempts = 0, last_connect_time = 0,
              delay_us = 1000, prefetch_resets = 0, slept = [], failure_reports = []\<rparr>"
  let ?torn = "\<lparr>begin_update_counter = 1, end_update_counter = 0, num_shards_copy = 1,
                 connstring_copy = ''host=?'', begin_update_counter_after = 1,
                 end_update_counter_after = 0\<rparr>"
  let ?r = "\<lparr>begin_update_counter = 1, end_update_counter = 1, num_shards_copy = 1,
              connstring_copy = ''host=b'', begin_update_counter_after = 1,
              end_update_counter_after = 1\<rparr>"
  have len: "length (page_servers ?s) = 2"
    by simp
  have ex: "list_ex consistent_read [?torn, ?r]"
    by (simp add: consistent_read_def)
  have r: "read_shard_map [?torn, ?r] = Some ?r"
    by simp
  have differ: "pagestore_local_counter ?s \<noteq> end_update_counter ?r"
    by simp
  have range: "\<not> (True \<and> num_shards_copy ?r \<le> 0)"
    by simp
  from load_shard_map_invalidates [OF len, of "[?torn, ?r]" True 0] r differ range
  obtain connstr s' where
    res: "load_shard_map 2 0 True [?torn, ?r] ?s = Some (Return (connstr, 1) s')"
    and closed: "\<forall>i<2. conn (page_servers s' ! i) = None"
    and counter: "pagestore_local_counter s' = 1"
    by auto
  from closed have c: "conn (page_servers s' ! 0) = None \<and> conn (page_servers s' ! 1) = None"
    by simp
  have upt2: "[0..<2] = [0, Suc 0]"
    by (simp add: numeral_2_eq_2)
  have eval: "load_shard_map 2 0 True [?torn, ?r] ?s
           = Some (Return (''host=b'', 1)
               (?s\<lparr>page_servers := [\<lparr>conn = None, wes = False\<rparr>, \<lparr>conn = None, wes = False\<rparr>],
                  pagestore_local_counter := 1, prefetch_resets := 1\<rparr>))"
    by (simp add: load_shard_map_def Let_def upt2 pageserver_disconnect_def
        pageserver_disconnect_shard_def)
  show ?thesis
    unfolding Let_def using len ex r differ eval res c counter by blast
qed

text \<open>
  Claim C9 as stated fails for a call that raises. A backend has a connection to shard 0
  and has seen the map at counter 1; the map now has one shard and counter 2. The call
  for the connection string of shard 1 observes the changed counter in a consistent
  round, raises the error for the shard number, and leaves the connection to shard 0
  open and the local counter at 1.
\<close>

theorem load_shard_map_out_of_range_counterexample:
  "(let s = \<lparr>page_servers = [\<lparr>conn = Some ''host=a'', wes = True\<rparr>, \<lparr>conn = None, wes = False\<rparr>],
              pagestore_local_counter = 1, n_reconnect_attempts = 0, last_connect_time = 0,
              delay_us = 1000, prefetch_resets = 0, slept = [], failure_reports = []\<rparr>;
        r = \<lparr>begin_update_counter = 2, end_update_counter = 2, num_shards_copy = 1,
              connstring_copy = [], begin_update_counter_after = 2,
              end_update_counter_after = 2\<rparr>
    in read_shard_map [r] = Some r \<and> consistent_read r
       \<and> pagestore_local_counter s \<noteq> end_update_counter r
       \<and> load_shard_map 2 1 True [r] s = Some (Raise (ShardOutOfRange 1 1) s)
       \<and> conn (page_servers s ! 0) = Some ''host=a''
       \<and> pagestore_local_counter s = 1)"
  by (simp add: Let_def consistent_read_def load_shard_map_def)

subsection \<open>The shard of a page\<close>

lemma ParseShardMap_empty:
  "ParseShardMap MAX_SHARDS MAX_PAGESERVER_CONNSTRING_SIZE ''''
     = Some \<lparr>connstring = replicate MAX_SHARDS [], num_shards = 0\<rparr>"
  by (simp add: ParseShardMap_def ParseShardMap_loop.simps)

lemma stripe_size_nonzero:
  assumes "1 \<le> stripe_size" and "stripe_size \<le> 2147483647"
  shows "(word_of_int stripe_size :: uint32) \<noteq> 0"
proof -
  have "uint (word_of_int stripe_size :: uint32) = stripe_size mod 2 ^ 32"
    by (simp add: uint_word_of_int)
  also have "\<dots> = stripe_size"
    using assms by simp
  finally show ?thesis
    using assms by auto
qed

text \<open>
  Claim C10. When the retry loop of \<open>load_shard_map\<close> ends with the consistent round \<open>r\<close>
  and \<open>stripe_size\<close> is within the range of its setting, \<open>get_shard_number\<close> with at
  least one shard returns \<open>hash_combine (murmurhash32 relNode) (murmurhash32 (blockNum /
  stripe_size))\<close> modulo the number of shards, a value below the number of shards that
  depends on nothing but the tag, the stripe size and the number of shards. With zero
  shards it reaches the remainder by zero, which the code does not guard; and
  \<open>ParseShardMap\<close> makes a map of zero shards from the empty connection string, the
  default of the setting.
\<close>

theorem get_shard_number_range:
  assumes r: "read_shard_map reads = Some r"
    and stripe: "1 \<le> stripe_size" "stripe_size \<le> 2147483647"
  shows "(1 \<le> num_shards_copy r \<longrightarrow>
            (\<exists>s'. get_shard_number murmurhash32 MAX_SHARDS stripe_size tag reads s
                    = Some (Return
                        (unat (hash_combine (murmurhash32 (relNode (rnode tag)))
                                 (murmurhash32 (blockNum tag div word_of_int stripe_size)))
                           mod num_shards_copy r) s'))
            \<and> unat (hash_combine (murmurhash32 (relNode (rnode tag)))
                        (murmurhash32 (blockNum tag div word_of_int stripe_size)))
                  mod num_shards_copy r < num_shards_copy r)
       \<and> (num_shards_copy r = 0 \<longrightarrow>
            (\<exists>s'. get_shard_number murmurhash32 MAX_SHARDS stripe_size tag reads s
                    = Some (Raise DivisionByZero s')))
       \<and> ParseShardMap MAX_SHARDS MAX_PAGESERVER_CONNSTRING_SIZE ''''
            = Some \<lparr>connstring = replicate MAX_SHARDS [], num_shards = 0\<rparr>"
proof -
  have nz: "(word_of_int stripe_size :: uint32) \<noteq> 0"
    using stripe by (rule stripe_size_nonzero)
  obtain s' where l:
    "load_shard_map MAX_SHARDS 0 False reads s = Some (Return ([], num_shards_copy r) s')"
    using r by (simp add: load_shard_map_def Let_def)
  show ?thesis
    using l nz by (simp add: get_shard_number_def Let_def ParseShardMap_empty)
qed

theorem get_shard_number_range_witness:
  "(let r = \<lparr>begin_update_counter = 1, end_update_counter = 1, num_shards_copy = 4,
              connstring_copy = [], begin_update_counter_after = 1,
              end_update_counter_after = 1\<rparr>;
        tag = \<lparr>rnode = \<lparr>spcNode = 1, dbNode = 2, relNode = 5\<rparr>, forkNum = 0, blockNum = 70000\<rparr>
    in read_shard_map [r] = Some r \<and> (1::int) \<le> 32768 \<and> (32768::int) \<le> 2147483647
       \<and> (1::nat) \<le> num_shards_copy r
       \<and> hash_combine 5 (70000 div word_of_int 32768) = 2654436089
       \<and> (\<exists>s'. get_shard_number (\<lambda>x. x) 8 32768 tag [r] (psc_initial 8) = Some (Return 1 s')))"
proof -
  let ?r = "\<lparr>begin_update_counter = 1, end_update_counter = 1, num_shards_copy = 4,
              connstring_copy = [], begin_update_counter_after = 1,
              end_update_counter_after = 1\<rparr>"
  let ?tag = "\<lparr>rnode = \<lparr>spcNode = 1, dbNode = 2, relNode = 5\<rparr>, forkNum = 0, blockNum = 70000\<rparr>"
  have r: "read_shard_map [?r] = Some ?r"
    by simp
  have h: "hash_combine 5 (70000 div word_of_int 32768) = (2654436089 :: uint32)"
    by (simp add: hash_combine_def)
  have m: "unat (2654436089 :: uint32) mod 4 = 1"
    by simp
  from get_shard_number_range [OF r, of 32768 "\<lambda>x. x" 8 ?tag "psc_initial 8"]
  have "\<exists>s'. get_shard_number (\<lambda>x. x) 8 32768 ?tag [?r] (psc_initial 8) = Some (Return 1 s')"
    using h m by simp
  then show ?thesis
    unfolding Let_def using r h by simp
qed

subsection \<open>The reconnect budget\<close>

lemma disconnect_open_failure_reports:
  "failure_reports (disconnect_open is s) = failure_reports s"
  by (induction "is" arbitrary: s)
     (simp_all add: pageserver_disconnect_def pageserver_disconnect_shard_def)

lemma load_shard_map_ok:
  assumes "shard_map_ok shard_no a"
  shows "\<exists>connstr n s0.
           load_shard_map M shard_no True (map_reads a) s = Some (Return (connstr, n) s0)
           \<and> n_reconnect_attempts s0 = n_reconnect_attempts s
           \<and> failure_reports s0 = failure_reports s"
  using assms
  by (auto simp: shard_map_ok_def load_shard_map_def Let_def disconnect_open_n_reconnect_attempts
      disconnect_open_failure_reports split: option.splits)

lemma pageserver_connect_failed:
  assumes ok: "shard_map_ok shard_no a" and failed: "failed_attempt a"
  shows "\<exists>s1. pageserver_connect M shard_no elevel a s
                 = Some (if elevel = ERROR
                         then Raise (if outcome a = HandshakeFailed then DoubleFree
                                     else ConnectFailed) s1
                         else Return False s1)
              \<and> n_reconnect_attempts s1 = n_reconnect_attempts s
              \<and> failure_reports s1 = failure_reports s @ [elevel]"
proof -
  from load_shard_map_ok [OF ok] obtain connstr n s0 where
    l: "load_shard_map M shard_no True (map_reads a) s = Some (Return (connstr, n) s0)"
    and n0: "n_reconnect_attempts s0 = n_reconnect_attempts s"
    and f0: "failure_reports s0 = failure_reports s"
    by blast
  let ?s3 = "(connect_backoff (time_before a) s0)\<lparr>last_connect_time := time_connected a\<rparr>"
  let ?s4 = "?s3\<lparr>failure_reports := failure_reports ?s3 @ [elevel]\<rparr>"
  have c: "pageserver_connect M shard_no elevel a s
             = Some (if outcome a = HandshakeFailed then handshake_failure elevel ?s3
                     else report_failure elevel ?s3)"
    using failed l by (auto simp: pageserver_connect_def failed_attempt_def Let_def)
  have r: "report_failure elevel ?s3 = (if elevel = ERROR then Raise ConnectFailed ?s4 else Return False ?s4)"
    by (simp add: report_failure_def Let_def)
  have h: "handshake_failure elevel ?s3 = (if elevel = ERROR then Raise DoubleFree ?s4 else Return False ?s4)"
    by (simp add: handshake_failure_def pg_catch_def Let_def)
  have n4: "n_reconnect_attempts ?s4 = n_reconnect_attempts s"
    using n0 by (simp add: connect_backoff_def Let_def)
  have f4: "failure_reports ?s4 = failure_reports s @ [elevel]"
    using f0 by (simp add: connect_backoff_def Let_def)
  show ?thesis
    unfolding c r h using n4 f4 by (intro exI [of _ ?s4] conjI) simp_all
qed

lemma pageserver_connect_established:
  assumes ok: "shard_map_ok shard_no a" and est: "outcome a = Established"
  shows "\<exists>s1. pageserver_connect M shard_no elevel a s = Some (Return True s1)
              \<and> n_reconnect_attempts s1 = n_reconnect_attempts s
              \<and> failure_reports s1 = failure_reports s"
proof -
  from load_shard_map_ok [OF ok] obtain connstr n s0 where
    l: "load_shard_map M shard_no True (map_reads a) s = Some (Return (connstr, n) s0)"
    and n0: "n_reconnect_attempts s0 = n_reconnect_attempts s"
    and f0: "failure_reports s0 = failure_reports s"
    by blast
  show ?thesis
    using l est n0 f0 by (simp add: pageserver_connect_def Let_def connect_backoff_def)
qed

lemma reconnect_loop_connects:
  assumes "\<forall>k<j. shard_map_ok shard_no (att (i + k)) \<and> failed_attempt (att (i + k))"
    and "shard_map_ok shard_no (att (i + j))" and "outcome (att (i + j)) = Established"
    and "int j \<le> mx - n_reconnect_attempts s"
  shows "\<exists>s'. reconnect_loop M mx shard_no att i s = Some (Return () s')
              \<and> n_reconnect_attempts s' = 0
              \<and> failure_reports s' = failure_reports s @ replicate j LOG"
  using assms
proof (induction j arbitrary: i s)
  case 0
  have "shard_map_ok shard_no (att i)" "outcome (att i) = Established"
    using "0.prems"(2,3) by simp_all
  from pageserver_connect_established [OF this]
  obtain s1 where
    c: "pageserver_connect M shard_no
          (if n_reconnect_attempts s < mx then LOG else ERROR) (att i) s = Some (Return True s1)"
    and f: "failure_reports s1 = failure_reports s"
    by blast
  show ?case
    by (subst reconnect_loop.simps) (simp add: c f)
next
  case (Suc j)
  have lt: "n_reconnect_attempts s < mx"
    using Suc.prems(4) by simp
  have here: "shard_map_ok shard_no (att i) \<and> failed_attempt (att i)"
    using Suc.prems(1) [rule_format, of 0] by simp
  from pageserver_connect_failed [of shard_no "att i" M LOG s] here
  obtain s1 where
    c: "pageserver_connect M shard_no LOG (att i) s = Some (Return False s1)"
    and n1: "n_reconnect_attempts s1 = n_reconnect_attempts s"
    and f1: "failure_reports s1 = failure_reports s @ [LOG]"
    by auto
  let ?s2 = "s1\<lparr>n_reconnect_attempts := n_reconnect_attempts s1 + 1\<rparr>"
  have rest: "\<forall>k<j. shard_map_ok shard_no (att (Suc i + k)) \<and> failed_attempt (att (Suc i + k))"
  proof (intro allI impI)
    fix k assume "k < j"
    then have "Suc k < Suc j" by simp
    from Suc.prems(1) [rule_format, OF this]
    show "shard_map_ok shard_no (att (Suc i + k)) \<and> failed_attempt (att (Suc i + k))"
      by simp
  qed
  have last: "shard_map_ok shard_no (att (Suc i + j))" "outcome (att (Suc i + j)) = Established"
    using Suc.prems(2,3) by simp_all
  have budget: "int j \<le> mx - n_reconnect_attempts ?s2"
    using Suc.prems(4) n1 by simp
  from Suc.IH [OF rest last budget] obtain s' where
    r: "reconnect_loop M mx shard_no att (Suc i) ?s2 = Some (Return () s')"
    and n': "n_reconnect_attempts s' = 0"
    and f': "failure_reports s' = failure_reports ?s2 @ replicate j LOG"
    by blast
  have "reconnect_loop M mx shard_no att i s = Some (Return () s')"
    by (subst reconnect_loop.simps) (simp add: lt c r)
  moreover have "failure_reports s' = failure_reports s @ replicate (Suc j) LOG"
    using f' f1 by (simp add: replicate_app_Cons_same)
  ultimately show ?case
    using n' by blast
qed

lemma reconnect_loop_gives_up:
  assumes "\<forall>k\<le>d. shard_map_ok shard_no (att (i + k)) \<and> failed_attempt (att (i + k))"
    and "int d = mx - n_reconnect_attempts s"
  shows "\<exists>s'. reconnect_loop M mx shard_no att i s
                 = Some (Raise (if outcome (att (i + d)) = HandshakeFailed then DoubleFree
                                else ConnectFailed) s')
              \<and> n_reconnect_attempts s' = mx
              \<and> failure_reports s' = failure_reports s @ replicate d LOG @ [ERROR]"
  using assms
proof (induction d arbitrary: i s)
  case 0
  let ?e = "if outcome (att i) = HandshakeFailed then DoubleFree else ConnectFailed"
  have ge: "\<not> n_reconnect_attempts s < mx" and eq: "n_reconnect_attempts s = mx"
    using "0.prems"(2) by simp_all
  have here: "shard_map_ok shard_no (att i) \<and> failed_attempt (att i)"
    using "0.prems"(1) by simp
  from pageserver_connect_failed [of shard_no "att i" M ERROR s] here
  obtain s1 where
    c: "pageserver_connect M shard_no ERROR (att i) s = Some (Raise ?e s1)"
    and n1: "n_reconnect_attempts s1 = n_reconnect_attempts s"
    and f1: "failure_reports s1 = failure_reports s @ [ERROR]"
    by auto
  have "reconnect_loop M mx shard_no att i s = Some (Raise ?e s1)"
    by (subst reconnect_loop.simps) (simp add: ge c)
  then show ?case
    using n1 f1 eq by simp
next
  case (Suc d)
  let ?e = "if outcome (att (Suc i + d)) = HandshakeFailed then DoubleFree else ConnectFailed"
  have lt: "n_reconnect_attempts s < mx"
    using Suc.prems(2) by simp
  have here: "shard_map_ok shard_no (att i) \<and> failed_attempt (att i)"
    using Suc.prems(1) [rule_format, of 0] by simp
  from pageserver_connect_failed [of shard_no "att i" M LOG s] here
  obtain s1 where
    c: "pageserver_connect M shard_no LOG (att i) s = Some (Return False s1)"
    and n1: "n_reconnect_attempts s1 = n_reconnect_attempts s"
    and f1: "failure_reports s1 = failure_reports s @ [LOG]"
    by auto
  let ?s2 = "s1\<lparr>n_reconnect_attempts := n_reconnect_attempts s1 + 1\<rparr>"
  have rest: "\<forall>k\<le>d. shard_map_ok shard_no (att (Suc i + k)) \<and> failed_attempt (att (Suc i + k))"
  proof (intro allI impI)
    fix k assume "k \<le> d"
    then have "Suc k \<le> Suc d" by simp
    from Suc.prems(1) [rule_format, OF this]
    show "shard_map_ok shard_no (att (Suc i + k)) \<and> failed_attempt (att (Suc i + k))"
      by simp
  qed
  have budget: "int d = mx - n_reconnect_attempts ?s2"
    using Suc.prems(2) n1 by simp
  from Suc.IH [OF rest budget] obtain s' where
    r: "reconnect_loop M mx shard_no att (Suc i) ?s2 = Some (Raise ?e s')"
    and n': "n_reconnect_attempts s' = mx"
    and f': "failure_reports s' = failure_reports ?s2 @ replicate d LOG @ [ERROR]"
    by blast
  have "reconnect_loop M mx shard_no att i s = Some (Raise ?e s')"
    by (subst reconnect_loop.simps) (simp add: lt c r)
  moreover have "failure_reports s' = failure_reports s @ replicate (Suc d) LOG @ [ERROR]"
    using f' f1 by simp
  ultimately show ?case
    using n' by simp
qed


lemma pageserver_disconnect_counters:
  "n_reconnect_attempts (pageserver_disconnect j s) = n_reconnect_attempts s"
  "failure_reports (pageserver_disconnect j s) = failure_reports s"
  by (simp_all add: pageserver_disconnect_def pageserver_disconnect_shard_def)

text \<open>
  \<open>pageserver_send\<close> on a shard without a connection, with the failure counter at
  zero. If the first \<open>j\<close> attempts fail, with \<open>j\<close> at most \<open>max_reconnect_attempts\<close>, and
  the next one connects, each failure is reported at \<open>LOG\<close> and retried, the call goes on
  to send, and the counter is zero afterwards. If the first \<open>max_reconnect_attempts + 1\<close>
  attempts fail, the first \<open>max_reconnect_attempts\<close> are reported at \<open>LOG\<close> and the last
  one at \<open>ERROR\<close>; the call raises that error to its caller, unless the last failure is
  one of the handshake, where \<open>PG_CATCH\<close> frees the connection and the wait event set a
  second time.
\<close>

lemma pageserver_send_reconnects:
  assumes closed: "conn (page_servers s ! shard_no) = None"
    and zero: "n_reconnect_attempts s = 0"
    and mx: "0 \<le> max_reconnect_attempts"
  shows "(\<forall>j. int j \<le> max_reconnect_attempts
              \<and> (\<forall>k<j. shard_map_ok shard_no (attempts env k) \<and> failed_attempt (attempts env k))
              \<and> shard_map_ok shard_no (attempts env j) \<and> outcome (attempts env j) = Established \<longrightarrow>
            (\<exists>s'. pageserver_send MAX_SHARDS max_reconnect_attempts shard_no env s
                     = Some (Return (put_copy_ok env) s')
                  \<and> n_reconnect_attempts s' = 0
                  \<and> failure_reports s' = failure_reports s @ replicate j LOG))
       \<and> ((\<forall>k\<le>nat max_reconnect_attempts.
              shard_map_ok shard_no (attempts env k) \<and> failed_attempt (attempts env k)) \<longrightarrow>
            (\<exists>s'. pageserver_send MAX_SHARDS max_reconnect_attempts shard_no env s
                     = Some (Raise (if outcome (attempts env (nat max_reconnect_attempts))
                                        = HandshakeFailed
                                    then DoubleFree else ConnectFailed) s')
                  \<and> n_reconnect_attempts s' = max_reconnect_attempts
                  \<and> failure_reports s' =
                      failure_reports s @ replicate (nat max_reconnect_attempts) LOG @ [ERROR]))"
proof (intro conjI allI impI)
  fix j
  assume a: "int j \<le> max_reconnect_attempts
      \<and> (\<forall>k<j. shard_map_ok shard_no (attempts env k) \<and> failed_attempt (attempts env k))
      \<and> shard_map_ok shard_no (attempts env j) \<and> outcome (attempts env j) = Established"
  then have fails: "\<forall>k<j. shard_map_ok shard_no (attempts env (0 + k)) \<and> failed_attempt (attempts env (0 + k))"
    and last: "shard_map_ok shard_no (attempts env (0 + j))" "outcome (attempts env (0 + j)) = Established"
    and budget: "int j \<le> max_reconnect_attempts - n_reconnect_attempts s"
    using zero by simp_all
  from reconnect_loop_connects [OF fails last budget] obtain s1 where
    r: "reconnect_loop MAX_SHARDS max_reconnect_attempts shard_no (attempts env) 0 s = Some (Return () s1)"
    and n1: "n_reconnect_attempts s1 = 0"
    and f1: "failure_reports s1 = failure_reports s @ replicate j LOG"
    by blast
  let ?s' = "if \<not> put_copy_ok env then pageserver_disconnect shard_no s1 else s1"
  have "pageserver_send MAX_SHARDS max_reconnect_attempts shard_no env s
          = Some (Return (put_copy_ok env) ?s')"
    using closed r by (simp add: pageserver_send_def Let_def)
  moreover have "n_reconnect_attempts ?s' = 0"
    using n1 by (simp add: pageserver_disconnect_counters)
  moreover have "failure_reports ?s' = failure_reports s @ replicate j LOG"
    using f1 by (simp add: pageserver_disconnect_counters)
  ultimately show "\<exists>s'. pageserver_send MAX_SHARDS max_reconnect_attempts shard_no env s
                     = Some (Return (put_copy_ok env) s')
                  \<and> n_reconnect_attempts s' = 0
                  \<and> failure_reports s' = failure_reports s @ replicate j LOG"
    by blast
next
  let ?e = "if outcome (attempts env (nat max_reconnect_attempts)) = HandshakeFailed
            then DoubleFree else ConnectFailed"
  assume "\<forall>k\<le>nat max_reconnect_attempts.
            shard_map_ok shard_no (attempts env k) \<and> failed_attempt (attempts env k)"
  then have fails: "\<forall>k\<le>nat max_reconnect_attempts.
      shard_map_ok shard_no (attempts env (0 + k)) \<and> failed_attempt (attempts env (0 + k))"
    by simp
  have budget: "int (nat max_reconnect_attempts) = max_reconnect_attempts - n_reconnect_attempts s"
    using zero mx by simp
  from reconnect_loop_gives_up [OF fails budget] obtain s1 where
    r: "reconnect_loop MAX_SHARDS max_reconnect_attempts shard_no (attempts env) 0 s
          = Some (Raise ?e s1)"
    and n1: "n_reconnect_attempts s1 = max_reconnect_attempts"
    and f1: "failure_reports s1 = failure_reports s @ replicate (nat max_reconnect_attempts) LOG @ [ERROR]"
    by auto
  have "pageserver_send MAX_SHARDS max_reconnect_attempts shard_no env s = Some (Raise ?e s1)"
    using closed r by (simp add: pageserver_send_def Let_def)
  with n1 f1 show "\<exists>s'. pageserver_send MAX_SHARDS max_reconnect_attempts shard_no env s
                     = Some (Raise ?e s')
                  \<and> n_reconnect_attempts s' = max_reconnect_attempts
                  \<and> failure_reports s' =
                      failure_reports s @ replicate (nat max_reconnect_attempts) LOG @ [ERROR]"
    by blast
qed

lemma shard_map_ok_refusing: "shard_map_ok 0 (refusing n i)"
  by (simp add: shard_map_ok_def refusing_def one_shard_def)

lemma failed_attempt_refusing: "i < n \<Longrightarrow> failed_attempt (refusing n i)"
  by (simp add: failed_attempt_def refusing_def)

lemma outcome_refusing: "outcome (refusing n n) = Established"
  by (simp add: refusing_def)

lemma shard_map_ok_failing_handshake: "shard_map_ok 0 (failing_handshake i)"
  by (simp add: shard_map_ok_def failing_handshake_def one_shard_def)

lemma failed_attempt_failing_handshake: "failed_attempt (failing_handshake i)"
  by (simp add: failed_attempt_def failing_handshake_def)

text \<open>
  Claim C8, at a failing input. With the budget of 60 attempts, a page server accepts
  every connection and fails every handshake. The first 60 failures are reported at
  \<open>LOG\<close> and retried. The 61st attempt runs with \<open>elevel = ERROR\<close>: the failed
  \<open>PQconsumeInput\<close> frees the connection and the wait event set and reports at \<open>ERROR\<close>
  inside \<open>PG_TRY\<close>, and \<open>PG_CATCH\<close> frees both again before it rethrows. What reaches
  the caller is not defined by C. When the page server refuses the 61 connections
  instead, the 61st failure is raised to the caller as an error, as the claim says.
\<close>

theorem pageserver_send_budget_double_free:
  "(\<exists>s'. pageserver_send 2 60 0
             \<lparr>conn_is_bad = False, attempts = failing_handshake, put_copy_ok = True\<rparr> (psc_initial 2)
            = Some (Raise DoubleFree s')
          \<and> n_reconnect_attempts s' = 60
          \<and> failure_reports s' = replicate 60 LOG @ [ERROR])
   \<and> (\<exists>s'. pageserver_send 2 60 0
             \<lparr>conn_is_bad = False, attempts = refusing 61, put_copy_ok = True\<rparr> (psc_initial 2)
            = Some (Raise ConnectFailed s')
          \<and> n_reconnect_attempts s' = 60
          \<and> failure_reports s' = replicate 60 LOG @ [ERROR])"
proof -
  let ?hs = "\<lparr>conn_is_bad = False, attempts = failing_handshake, put_copy_ok = True\<rparr>"
  let ?rf = "\<lparr>conn_is_bad = False, attempts = refusing 61, put_copy_ok = True\<rparr>"
  have closed: "conn (page_servers (psc_initial 2) ! 0) = None"
    by (simp add: psc_initial_def numeral_2_eq_2)
  have zero: "n_reconnect_attempts (psc_initial 2) = 0"
    by (simp add: psc_initial_def)
  have start: "failure_reports (psc_initial 2) = []"
    by (simp add: psc_initial_def)
  have mx: "(0::int) \<le> 60"
    by simp
  have a: "\<forall>k\<le>nat 60. shard_map_ok 0 (attempts ?hs k) \<and> failed_attempt (attempts ?hs k)"
    by (simp add: shard_map_ok_failing_handshake failed_attempt_failing_handshake)
  have b: "\<forall>k\<le>nat 60. shard_map_ok 0 (attempts ?rf k) \<and> failed_attempt (attempts ?rf k)"
    by (simp add: shard_map_ok_refusing failed_attempt_refusing)
  have last_hs: "outcome (attempts ?hs (nat 60)) = HandshakeFailed"
    by (simp add: failing_handshake_def)
  have last_rf: "outcome (attempts ?rf (nat 60)) \<noteq> HandshakeFailed"
    by (simp add: refusing_def)
  from pageserver_send_reconnects [OF closed zero mx, where env = ?hs and MAX_SHARDS = 2,
      THEN conjunct2, rule_format, OF a [rule_format]]
  have first: "\<exists>s'. pageserver_send 2 60 0 ?hs (psc_initial 2) = Some (Raise DoubleFree s')
          \<and> n_reconnect_attempts s' = 60
          \<and> failure_reports s' = replicate 60 LOG @ [ERROR]"
    unfolding last_hs by (simp add: start)
  from pageserver_send_reconnects [OF closed zero mx, where env = ?rf and MAX_SHARDS = 2,
      THEN conjunct2, rule_format, OF b [rule_format]]
  have second: "\<exists>s'. pageserver_send 2 60 0 ?rf (psc_initial 2) = Some (Raise ConnectFailed s')
          \<and> n_reconnect_attempts s' = 60
          \<and> failure_reports s' = replicate 60 LOG @ [ERROR]"
    using last_rf by (simp add: start)
  from first second show ?thesis
    by blast
qed

subsection \<open>The backoff between connection attempts\<close>

lemma connect_backoff_quick:
  "now - last_connect_time s < MAX_RECONNECT_INTERVAL_USEC \<Longrightarrow>
     connect_backoff now s = s\<lparr>slept := slept s @ [delay_us s], delay_us := delay_us s * 2\<rparr>"
  by (simp add: connect_backoff_def Let_def)

lemma connect_backoff_reset:
  "\<not> now - last_connect_time s < MAX_RECONNECT_INTERVAL_USEC \<Longrightarrow>
     connect_backoff now s = s\<lparr>delay_us := MIN_RECONNECT_INTERVAL_USEC\<rparr>"
  by (simp add: connect_backoff_def Let_def)

lemma refusing_gap:
  "time_before (refusing n (Suc i)) - time_connected (refusing n i) = 50"
  by (simp add: refusing_def algebra_simps)

lemma refusing_quick:
  "last_connect_time s = time_connected (refusing n i) \<Longrightarrow>
     time_before (refusing n (Suc i)) - last_connect_time s < MAX_RECONNECT_INTERVAL_USEC"
  by (simp add: refusing_gap MAX_RECONNECT_INTERVAL_USEC_def word_less_nat_alt)

lemma disconnect_open_closed:
  "\<forall>i\<in>set is. conn (page_servers s ! i) = None \<Longrightarrow> disconnect_open is s = s"
  by (induction "is" arbitrary: s) simp_all

text \<open>
  With no connection open, \<open>load_shard_map\<close> on the map of one shard brings the local
  counter to 1, the first time from 0, and changes nothing else.
\<close>

lemma load_shard_map_one_shard:
  assumes "\<forall>i<M. conn (page_servers s ! i) = None"
  shows "load_shard_map M 0 True [one_shard] s
       = Some (Return (if 0 < M then ''host=pageserver'' else [], 1)
                 (s\<lparr>pagestore_local_counter := 1\<rparr>))"
proof -
  have "disconnect_open [0..<M] s = s"
    using assms by (intro disconnect_open_closed) simp
  then show ?thesis
    by (simp add: load_shard_map_def one_shard_def Let_def)
qed

lemma pageserver_connect_refusing:
  assumes "\<forall>i<M. conn (page_servers s ! i) = None"
  shows "pageserver_connect M 0 elevel (refusing n i) s =
     Some (let s3 = (connect_backoff (time_before (refusing n i)) (s\<lparr>pagestore_local_counter := 1\<rparr>))
                      \<lparr>last_connect_time := time_connected (refusing n i)\<rparr>
           in if i < n then report_failure elevel s3
              else Return True
                     (s3\<lparr>page_servers := (page_servers s3)
                            [0 := \<lparr>conn = Some (if 0 < M then ''host=pageserver'' else []),
                                   wes = True\<rparr>]\<rparr>))"
  using load_shard_map_one_shard [OF assms]
  by (simp add: pageserver_connect_def refusing_def Let_def)


lemma doubling_sleeps:
  "d # map (\<lambda>k. d * 2 * 2 ^ k) [0..<m] = map (\<lambda>k. d * 2 ^ k) [0..<Suc m]"
  for d :: uint64
  by (simp add: map_upt_Suc mult.assoc del: upt_Suc)

lemma reconnect_loop_refusing:
  assumes "\<forall>j<M. conn (page_servers s ! j) = None"
    and "last_connect_time s = time_connected (refusing n i)"
    and "n_reconnect_attempts s = int (Suc i)"
    and "Suc i + d = n" and "int n \<le> mx"
  shows "\<exists>s'. reconnect_loop M mx 0 (refusing n) (Suc i) s = Some (Return () s')
              \<and> delay_us s' = delay_us s * 2 ^ Suc d
              \<and> slept s' = slept s @ map (\<lambda>k. delay_us s * 2 ^ k) [0..<Suc d]"
  using assms
proof (induction d arbitrary: i s)
  case 0
  let ?s0 = "s\<lparr>pagestore_local_counter := 1\<rparr>"
  let ?s3 = "(connect_backoff (time_before (refusing n (Suc i))) ?s0)
               \<lparr>last_connect_time := time_connected (refusing n (Suc i))\<rparr>"
  let ?s4 = "?s3\<lparr>page_servers := (page_servers ?s3)
               [0 := \<lparr>conn = Some (if 0 < M then ''host=pageserver'' else []), wes = True\<rparr>]\<rparr>"
  have last: "\<not> Suc i < n"
    using "0.prems"(4) by simp
  have c: "pageserver_connect M 0 (if n_reconnect_attempts s < mx then LOG else ERROR)
             (refusing n (Suc i)) s = Some (Return True ?s4)"
    using last by (simp add: pageserver_connect_refusing [OF "0.prems"(1)] Let_def)
  have q: "time_before (refusing n (Suc i)) - last_connect_time ?s0 < MAX_RECONNECT_INTERVAL_USEC"
    using refusing_quick [OF "0.prems"(2)] by simp
  have b: "connect_backoff (time_before (refusing n (Suc i))) ?s0
             = ?s0\<lparr>slept := slept s @ [delay_us s], delay_us := delay_us s * 2\<rparr>"
    using connect_backoff_quick [OF q] by simp
  have "reconnect_loop M mx 0 (refusing n) (Suc i) s
          = Some (Return () (?s4\<lparr>n_reconnect_attempts := 0\<rparr>))"
    by (subst reconnect_loop.simps) (simp add: c)
  then show ?case
    by (simp add: b)
next
  case (Suc d)
  let ?s0 = "s\<lparr>pagestore_local_counter := 1\<rparr>"
  let ?s3 = "(connect_backoff (time_before (refusing n (Suc i))) ?s0)
               \<lparr>last_connect_time := time_connected (refusing n (Suc i))\<rparr>"
  let ?s4 = "?s3\<lparr>failure_reports := failure_reports ?s3 @ [LOG]\<rparr>"
  let ?s5 = "?s4\<lparr>n_reconnect_attempts := n_reconnect_attempts ?s4 + 1\<rparr>"
  have more: "Suc i < n"
    using Suc.prems(4) by simp
  have lt: "n_reconnect_attempts s < mx"
    using Suc.prems(3,5) more by simp
  have c: "pageserver_connect M 0 (if n_reconnect_attempts s < mx then LOG else ERROR)
             (refusing n (Suc i)) s = Some (Return False ?s4)"
    using more lt
    by (simp add: pageserver_connect_refusing [OF Suc.prems(1)] Let_def report_failure_def)
  have q: "time_before (refusing n (Suc i)) - last_connect_time ?s0 < MAX_RECONNECT_INTERVAL_USEC"
    using refusing_quick [OF Suc.prems(2)] by simp
  have b: "connect_backoff (time_before (refusing n (Suc i))) ?s0
             = ?s0\<lparr>slept := slept s @ [delay_us s], delay_us := delay_us s * 2\<rparr>"
    using connect_backoff_quick [OF q] by simp
  have step: "reconnect_loop M mx 0 (refusing n) (Suc i) s
          = reconnect_loop M mx 0 (refusing n) (Suc (Suc i)) ?s5"
    by (subst reconnect_loop.simps) (simp add: c)
  have p1: "\<forall>j<M. conn (page_servers ?s5 ! j) = None"
    using Suc.prems(1) by (simp add: b)
  have p2: "last_connect_time ?s5 = time_connected (refusing n (Suc i))"
    by simp
  have p3: "n_reconnect_attempts ?s5 = int (Suc (Suc i))"
    using Suc.prems(3) by (simp add: b)
  have p4: "Suc (Suc i) + d = n"
    using Suc.prems(4) by simp
  from Suc.IH [OF p1 p2 p3 p4 Suc.prems(5)] obtain s' where
    r: "reconnect_loop M mx 0 (refusing n) (Suc (Suc i)) ?s5 = Some (Return () s')"
    and d': "delay_us s' = delay_us ?s5 * 2 ^ Suc d"
    and sl: "slept s' = slept ?s5 @ map (\<lambda>k. delay_us ?s5 * 2 ^ k) [0..<Suc d]"
    by blast
  have d5: "delay_us ?s5 = delay_us s * 2" and s5: "slept ?s5 = slept s @ [delay_us s]"
    by (simp_all add: b)
  have "delay_us s' = delay_us s * 2 ^ Suc (Suc d)"
    unfolding d' d5 by (simp add: mult.assoc)
  moreover have "slept s' = slept s @ map (\<lambda>k. delay_us s * 2 ^ k) [0..<Suc (Suc d)]"
    unfolding sl d5 s5 using doubling_sleeps [of "delay_us s" "Suc d"]
    by (simp del: upt_Suc)
  ultimately show ?case
    using step r by simp
qed


lemma refusing_first_not_quick:
  "\<not> time_before (refusing n 0) - last_connect_time (psc_initial M) < MAX_RECONNECT_INTERVAL_USEC"
  by (simp add: refusing_def psc_initial_def MAX_RECONNECT_INTERVAL_USEC_def word_less_nat_alt)

lemma pageserver_send_refusing:
  assumes budget: "int n \<le> mx" and shards: "0 < M"
  shows "\<exists>s'. pageserver_send M mx 0
                 \<lparr>conn_is_bad = bad, attempts = refusing n, put_copy_ok = True\<rparr> (psc_initial M)
                = Some (Return True s')
              \<and> delay_us s' = 1000 * 2 ^ n
              \<and> slept s' = map (\<lambda>k. 1000 * 2 ^ k) [0..<n]"
proof -
  let ?i = "psc_initial M"
  let ?s0 = "?i\<lparr>pagestore_local_counter := 1\<rparr>"
  let ?s3 = "(connect_backoff (time_before (refusing n 0)) ?s0)
               \<lparr>last_connect_time := time_connected (refusing n 0)\<rparr>"
  have closed: "conn (page_servers ?i ! 0) = None"
    using shards by (simp add: psc_initial_def)
  have all_closed: "\<forall>j<M. conn (page_servers ?i ! j) = None"
    by (simp add: psc_initial_def)
  have q: "\<not> time_before (refusing n 0) - last_connect_time ?s0 < MAX_RECONNECT_INTERVAL_USEC"
    using refusing_first_not_quick [of n M] by simp
  have b: "connect_backoff (time_before (refusing n 0)) ?s0
             = ?s0\<lparr>delay_us := MIN_RECONNECT_INTERVAL_USEC\<rparr>"
    by (rule connect_backoff_reset [OF q])
  have send: "pageserver_send M mx 0
                 \<lparr>conn_is_bad = bad, attempts = refusing n, put_copy_ok = True\<rparr> ?i
        = (case reconnect_loop M mx 0 (refusing n) 0 ?i of
             None \<Rightarrow> None
           | Some (Raise e s2) \<Rightarrow> Some (Raise e s2)
           | Some (Return u s2) \<Rightarrow> Some (Return True s2))"
    using closed
    by (simp add: pageserver_send_def Let_def split: option.splits psc_result.splits)
  have d3: "delay_us ?s3 = 1000"
    unfolding b by (simp add: MIN_RECONNECT_INTERVAL_USEC_def)
  have sl3: "slept ?s3 = []"
    unfolding b by (simp add: psc_initial_def)
  have ps3: "page_servers ?s3 = page_servers ?i"
    unfolding b by simp
  have n3: "n_reconnect_attempts ?s3 = 0"
    unfolding b by (simp add: psc_initial_def)
  show ?thesis
  proof (cases n)
    case 0
    let ?s4 = "?s3\<lparr>page_servers := (page_servers ?s3)
                 [0 := \<lparr>conn = Some (if 0 < M then ''host=pageserver'' else []), wes = True\<rparr>]\<rparr>"
    have c: "pageserver_connect M 0 (if n_reconnect_attempts ?i < mx then LOG else ERROR)
               (refusing n 0) ?i = Some (Return True ?s4)"
      using 0 by (simp add: pageserver_connect_refusing [OF all_closed] Let_def)
    have "reconnect_loop M mx 0 (refusing n) 0 ?i
            = Some (Return () (?s4\<lparr>n_reconnect_attempts := 0\<rparr>))"
      by (subst reconnect_loop.simps) (simp add: c)
    then show ?thesis
      unfolding send using 0 d3 sl3 by simp
  next
    case (Suc d)
    let ?s4 = "?s3\<lparr>failure_reports := failure_reports ?s3 @ [LOG]\<rparr>"
    let ?s5 = "?s4\<lparr>n_reconnect_attempts := n_reconnect_attempts ?s4 + 1\<rparr>"
    have lt: "n_reconnect_attempts ?i < mx"
      using budget Suc by (simp add: psc_initial_def)
    have c: "pageserver_connect M 0 (if n_reconnect_attempts ?i < mx then LOG else ERROR)
               (refusing n 0) ?i = Some (Return False ?s4)"
      using Suc lt
      by (simp add: pageserver_connect_refusing [OF all_closed] Let_def report_failure_def)
    have step: "reconnect_loop M mx 0 (refusing n) 0 ?i
            = reconnect_loop M mx 0 (refusing n) (Suc 0) ?s5"
      by (subst reconnect_loop.simps) (simp add: c)
    have p1: "\<forall>j<M. conn (page_servers ?s5 ! j) = None"
      using all_closed ps3 by simp
    have p2: "last_connect_time ?s5 = time_connected (refusing n 0)"
      by simp
    have p3: "n_reconnect_attempts ?s5 = int (Suc 0)"
      using n3 by simp
    have p4: "Suc 0 + d = n"
      using Suc by simp
    from reconnect_loop_refusing [OF p1 p2 p3 p4 budget] obtain s' where
      r: "reconnect_loop M mx 0 (refusing n) (Suc 0) ?s5 = Some (Return () s')"
      and d': "delay_us s' = delay_us ?s5 * 2 ^ Suc d"
      and sl: "slept s' = slept ?s5 @ map (\<lambda>k. delay_us ?s5 * 2 ^ k) [0..<Suc d]"
      by blast
    have d5: "delay_us ?s5 = 1000" and s5: "slept ?s5 = []"
      using d3 sl3 by simp_all
    have fd: "delay_us s' = 1000 * 2 ^ n"
      unfolding d' d5 using Suc by simp
    have fs: "slept s' = map (\<lambda>k. 1000 * 2 ^ k) [0..<n]"
      unfolding sl d5 s5 using Suc by (simp del: upt_Suc)
    show ?thesis
      unfolding send step r using fd fs by simp
  qed
qed

text \<open>
  Claim C7, at a failing input. A page server refuses eleven connections in a row and
  accepts the twelfth, within one call of \<open>pageserver_send\<close> and its budget of 60
  attempts. Every attempt but the first starts less than a second after the previous
  \<open>PQconnectdbParams\<close> returned, so \<open>delay_us\<close> doubles each time with nothing to stop
  it: the last sleep is 1024000 microseconds and \<open>delay_us\<close> ends at 2048000, both
  above \<open>MAX_RECONNECT_INTERVAL_USEC\<close>.
\<close>

theorem pageserver_send_backoff_exceeds_max:
  "\<exists>s'. pageserver_send 2 60 0
           \<lparr>conn_is_bad = False, attempts = refusing 11, put_copy_ok = True\<rparr> (psc_initial 2)
          = Some (Return True s')
        \<and> slept s' = [1000, 2000, 4000, 8000, 16000, 32000, 64000, 128000, 256000, 512000, 1024000]
        \<and> delay_us s' = 2048000
        \<and> MAX_RECONNECT_INTERVAL_USEC < 1024000
        \<and> MAX_RECONNECT_INTERVAL_USEC < delay_us s'"
proof -
  have budget: "int 11 \<le> 60" and shards: "(0::nat) < 2"
    by simp_all
  from pageserver_send_refusing [OF budget shards, of False] obtain s' where
    r: "pageserver_send 2 60 0
          \<lparr>conn_is_bad = False, attempts = refusing 11, put_copy_ok = True\<rparr> (psc_initial 2)
         = Some (Return True s')"
    and d: "delay_us s' = 1000 * 2 ^ 11"
    and sl: "slept s' = map (\<lambda>k. 1000 * 2 ^ k) [0..<11]"
    by blast
  have upt: "[0..<11] = [0, 1, 2, 3, 4, 5, 6, 7, 8, 9, 10 :: nat]"
    by code_simp
  have "slept s' = [1000, 2000, 4000, 8000, 16000, 32000, 64000, 128000, 256000, 512000, 1024000]"
    unfolding sl upt by simp
  moreover have "delay_us s' = 2048000"
    unfolding d by simp
  moreover have "MAX_RECONNECT_INTERVAL_USEC < 1024000" "MAX_RECONNECT_INTERVAL_USEC < 2048000"
    by (simp_all add: MAX_RECONNECT_INTERVAL_USEC_def word_less_nat_alt)
  ultimately show ?thesis
    using r by auto
qed

end
